theory Spec2Isabelle
  imports Main "HOL-Library.Word" "HOL-Library.While_Combinator"
begin

unbundle bit_operations_syntax

section \<open>The image file and the machine data of journal.c\<close>

text \<open>
  The program works on one image file, \<^verbatim>\<open>vsfs.img\<close>, through positioned reads and writes.
  The file is a sequence of bytes. Integers in the file are little-endian and the structs
  are packed as the \<^verbatim>\<open>_Static_assert\<close>s of the source say (LP64, little-endian host):
  \<^verbatim>\<open>uint16_t\<close> and \<^verbatim>\<open>uint32_t\<close> values are natural numbers below \<open>2 ^ 16\<close> and
  \<open>2 ^ 32\<close>, and every \<^verbatim>\<open>uint32_t\<close> addition of the source is written with its
  wrap-around.
\<close>

type_synonym u8 = "8 word"
type_synonym image = "u8 list"

abbreviation (input) BLOCK_SIZE :: nat where "BLOCK_SIZE \<equiv> 4096"
abbreviation (input) INODE_SIZE :: nat where "INODE_SIZE \<equiv> 128"
abbreviation (input) NAME_LEN :: nat where "NAME_LEN \<equiv> 28"
abbreviation (input) JOURNAL_BLOCKS :: nat where "JOURNAL_BLOCKS \<equiv> 16"
abbreviation (input) JOURNAL_START_BLK :: nat where "JOURNAL_START_BLK \<equiv> 1"
abbreviation (input) INODE_BMAP_BLK :: nat where "INODE_BMAP_BLK \<equiv> 17"
abbreviation (input) INODE_TABLE_BLK :: nat where "INODE_TABLE_BLK \<equiv> 19"
abbreviation (input) INODE_TABLE_BLKS :: nat where "INODE_TABLE_BLKS \<equiv> 2"
abbreviation (input) JOURNAL_MAGIC :: nat where "JOURNAL_MAGIC \<equiv> 0x4A524E4C"
abbreviation (input) REC_DATA :: nat where "REC_DATA \<equiv> 1"
abbreviation (input) REC_COMMIT :: nat where "REC_COMMIT \<equiv> 2"
abbreviation (input) U32 :: nat where "U32 \<equiv> 4294967296"

text \<open>Every \<^verbatim>\<open>exit(1)\<close> of the source, named as the error kinds it prints.\<close>

datatype error =
    Io | NameInvalid | RootNotDir | RootNoBlock | NoFreeInode | InodeOutOfRange
  | CorruptBitmap | DirFull | Exists | JournalFull | JournalMissing | TxnTooLarge

subsection \<open>Little-endian fields of a byte buffer\<close>

definition le16 :: "u8 list \<Rightarrow> nat \<Rightarrow> nat" where
  "le16 buf off = unat (buf ! off) + 256 * unat (buf ! (off + 1))"

definition le32 :: "u8 list \<Rightarrow> nat \<Rightarrow> nat" where
  "le32 buf off = unat (buf ! off) + 256 * unat (buf ! (off + 1))
     + 65536 * unat (buf ! (off + 2)) + 16777216 * unat (buf ! (off + 3))"

definition enc16 :: "nat \<Rightarrow> u8 list" where
  "enc16 v = [of_nat v, of_nat (v div 256)]"

definition enc32 :: "nat \<Rightarrow> u8 list" where
  "enc32 v = [of_nat v, of_nat (v div 256), of_nat (v div 65536), of_nat (v div 16777216)]"

text \<open>\<^verbatim>\<open>memcpy\<close> of \<open>src\<close> into a buffer at byte offset \<open>off\<close> (always in range in the source).\<close>

definition blit :: "u8 list \<Rightarrow> nat \<Rightarrow> u8 list \<Rightarrow> u8 list" where
  "blit buf off src = take off buf @ src @ drop (off + length src) buf"

subsection \<open>Block I/O (lines 91-111)\<close>

text \<open>
  \<^verbatim>\<open>pread_exact\<close> dies when the file holds fewer than \<open>n\<close> bytes at \<open>off\<close>: the result
  \<open>None\<close>, which every caller turns into the error \<open>Io\<close>. \<^verbatim>\<open>pwrite_exact\<close> on a regular
  file writes all its bytes, growing the file (the gap reads as zero) when it has to; a
  write of no bytes leaves the file as it is.
\<close>

definition pread_exact :: "image \<Rightarrow> nat \<Rightarrow> nat \<Rightarrow> u8 list option" where
  "pread_exact img n off =
     (if off + n \<le> length img then Some (take n (drop off img)) else None)"

definition pwrite_exact :: "image \<Rightarrow> u8 list \<Rightarrow> nat \<Rightarrow> image" where
  "pwrite_exact img buf off =
     (if buf = [] then img
      else
        let img1 = img @ replicate (off - length img) 0
        in take off img1 @ buf @ drop (off + length buf) img1)"

definition read_block :: "image \<Rightarrow> nat \<Rightarrow> u8 list option" where
  "read_block img blk = pread_exact img BLOCK_SIZE (blk * BLOCK_SIZE)"

definition write_block :: "image \<Rightarrow> nat \<Rightarrow> u8 list \<Rightarrow> image" where
  "write_block img blk buf4096 = pwrite_exact img buf4096 (blk * BLOCK_SIZE)"

subsection \<open>Bitmaps (lines 120-128)\<close>

definition bitmap_test :: "u8 list \<Rightarrow> nat \<Rightarrow> u8" where
  "bitmap_test bm i = drop_bit (i mod 8) (bm ! (i div 8)) AND 1"

definition bitmap_set :: "u8 list \<Rightarrow> nat \<Rightarrow> u8 list" where
  "bitmap_set bm i = bm[i div 8 := (bm ! (i div 8)) OR push_bit (i mod 8) 1]"

section \<open>The journal store (lines 130-216)\<close>

record journal_header =
  magic :: nat
  nbytes_used :: nat

definition journal_base_off :: nat where
  "journal_base_off = JOURNAL_START_BLK * BLOCK_SIZE"

definition journal_capacity_bytes :: nat where
  "journal_capacity_bytes = JOURNAL_BLOCKS * BLOCK_SIZE"

definition journal_clear_region :: "image \<Rightarrow> image" where
  "journal_clear_region img =
     fold (\<lambda>i im. write_block im (JOURNAL_START_BLK + i) (replicate BLOCK_SIZE 0))
          [0..<JOURNAL_BLOCKS] img"

definition journal_read_header :: "image \<Rightarrow> journal_header option" where
  "journal_read_header img =
     (case pread_exact img 8 journal_base_off of
        None \<Rightarrow> None
      | Some b \<Rightarrow> Some \<lparr>magic = le32 b 0, nbytes_used = le32 b 4\<rparr>)"

definition journal_write_header :: "image \<Rightarrow> journal_header \<Rightarrow> image" where
  "journal_write_header img jh =
     pwrite_exact img (enc32 (magic jh) @ enc32 (nbytes_used jh)) journal_base_off"

text \<open>The test shared by \<^verbatim>\<open>journal_init_if_needed\<close> and \<^verbatim>\<open>journal_fail_if_missing\<close>.\<close>

definition header_invalid :: "journal_header \<Rightarrow> bool" where
  "header_invalid jh \<longleftrightarrow>
     magic jh \<noteq> JOURNAL_MAGIC \<or> nbytes_used jh < 8 \<or> nbytes_used jh > journal_capacity_bytes"

definition fresh_header :: journal_header where
  "fresh_header = \<lparr>magic = JOURNAL_MAGIC, nbytes_used = 8\<rparr>"

definition journal_init_if_needed :: "image \<Rightarrow> (error + journal_header) \<times> image" where
  "journal_init_if_needed img =
     (case journal_read_header img of
        None \<Rightarrow> (Inl Io, img)
      | Some jh \<Rightarrow>
          if header_invalid jh
          then (Inr fresh_header, journal_write_header (journal_clear_region img) fresh_header)
          else (Inr jh, img))"

definition journal_fail_if_missing :: "image \<Rightarrow> error + journal_header" where
  "journal_fail_if_missing img =
     (case journal_read_header img of
        None \<Rightarrow> Inl Io
      | Some jh \<Rightarrow> if header_invalid jh then Inl JournalMissing else Inr jh)"

definition journal_append_bytes ::
  "image \<Rightarrow> journal_header \<Rightarrow> u8 list \<Rightarrow> (error + journal_header) \<times> image" where
  "journal_append_bytes img jh src =
     (if (nbytes_used jh + length src) mod U32 > journal_capacity_bytes
      then (Inl JournalFull, img)
      else
        let img1 = pwrite_exact img src (journal_base_off + nbytes_used jh);
            jh1 = jh\<lparr>nbytes_used := (nbytes_used jh + length src) mod U32\<rparr>
        in (Inr jh1, journal_write_header img1 jh1))"

text \<open>Sequencing of journal operations: the first \<^verbatim>\<open>exit(1)\<close> ends the run.\<close>

definition jthen ::
  "(error + journal_header) \<times> image \<Rightarrow> (image \<Rightarrow> journal_header \<Rightarrow> (error + journal_header) \<times> image)
   \<Rightarrow> (error + journal_header) \<times> image" where
  "jthen r f = (case r of (Inl e, img) \<Rightarrow> (Inl e, img) | (Inr jh, img) \<Rightarrow> f img jh)"

definition journal_append_data ::
  "image \<Rightarrow> journal_header \<Rightarrow> nat \<Rightarrow> u8 list \<Rightarrow> (error + journal_header) \<times> image" where
  "journal_append_data img jh block_no image4096 =
     jthen (jthen (journal_append_bytes img jh (enc16 REC_DATA @ enc16 (4 + 4 + BLOCK_SIZE)))
              (\<lambda>img1 jh1. journal_append_bytes img1 jh1 (enc32 block_no)))
       (\<lambda>img2 jh2. journal_append_bytes img2 jh2 image4096)"

definition journal_append_commit ::
  "image \<Rightarrow> journal_header \<Rightarrow> (error + journal_header) \<times> image" where
  "journal_append_commit img jh = journal_append_bytes img jh (enc16 REC_COMMIT @ enc16 4)"

section \<open>The committed-view overlay (lines 218-298)\<close>

text \<open>
  A \<^verbatim>\<open>struct logged_image\<close> is a block number with a block image. An array of them with
  its count is the list of its first \<open>count\<close> entries.
\<close>

type_synonym logged_image = "nat \<times> u8 list"

fun upsert_find :: "logged_image list \<Rightarrow> nat \<Rightarrow> u8 list \<Rightarrow> logged_image list option" where
  "upsert_find [] block_no image4096 = None"
| "upsert_find (e # arr) block_no image4096 =
     (if fst e = block_no then Some ((fst e, image4096) # arr)
      else map_option ((#) e) (upsert_find arr block_no image4096))"

text \<open>The result is the returned \<^verbatim>\<open>int\<close> (as a truth value) and the array afterwards.\<close>

definition logged_image_upsert ::
  "logged_image list \<Rightarrow> nat \<Rightarrow> nat \<Rightarrow> u8 list \<Rightarrow> bool \<times> logged_image list" where
  "logged_image_upsert arr max_n block_no image4096 =
     (case upsert_find arr block_no image4096 of
        Some arr' \<Rightarrow> (True, arr')
      | None \<Rightarrow>
          if length arr \<ge> max_n then (False, arr)
          else (True, arr @ [(block_no, image4096)]))"

fun logged_image_find :: "logged_image list \<Rightarrow> nat \<Rightarrow> u8 list option" where
  "logged_image_find [] block_no = None"
| "logged_image_find (e # arr) block_no =
     (if fst e = block_no then Some (snd e) else logged_image_find arr block_no)"

text \<open>
  The \<^verbatim>\<open>for\<close> loop of lines 284-289: the \<^verbatim>\<open>break\<close> on a failed upsert leaves this loop.
\<close>

fun commit_pending :: "logged_image list \<Rightarrow> nat \<Rightarrow> logged_image list \<Rightarrow> logged_image list" where
  "commit_pending latest latest_max [] = latest"
| "commit_pending latest latest_max (p # pending) =
     (case logged_image_upsert latest latest_max (fst p) (snd p) of
        (True, latest') \<Rightarrow> commit_pending latest' latest_max pending
      | (False, latest') \<Rightarrow> latest')"

text \<open>
  The state of the \<^verbatim>\<open>while\<close> loop of \<^verbatim>\<open>journal_collect_latest_committed\<close>: \<open>c_break\<close> is set
  by a \<^verbatim>\<open>break\<close> of the \<^verbatim>\<open>while\<close> loop, \<open>c_died\<close> by a short read.
\<close>

record collect_state =
  c_pos :: nat
  c_pending :: "logged_image list"
  c_latest :: "logged_image list"
  c_break :: bool
  c_died :: bool

definition collect_iter :: "image \<Rightarrow> nat \<Rightarrow> nat \<Rightarrow> collect_state \<Rightarrow> collect_state" where
  "collect_iter img used latest_max s =
     (case pread_exact img 4 (journal_base_off + c_pos s) of
        None \<Rightarrow> s\<lparr>c_died := True\<rparr>
      | Some rh \<Rightarrow>
          let rtype = le16 rh 0; rsize = le16 rh 2 in
          if rsize < 4 then s\<lparr>c_break := True\<rparr>
          else if (c_pos s + rsize) mod U32 > used then s\<lparr>c_break := True\<rparr>
          else if rtype = REC_DATA then
            if rsize \<noteq> 4 + 4 + BLOCK_SIZE then s\<lparr>c_break := True\<rparr>
            else if length (c_pending s) \<ge> 32 then s\<lparr>c_break := True\<rparr>
            else
              (case pread_exact img 4 (journal_base_off + c_pos s + 4) of
                 None \<Rightarrow> s\<lparr>c_died := True\<rparr>
               | Some bno \<Rightarrow>
                   (case pread_exact img BLOCK_SIZE (journal_base_off + c_pos s + 4 + 4) of
                      None \<Rightarrow> s\<lparr>c_died := True\<rparr>
                    | Some im \<Rightarrow>
                        s\<lparr>c_pending := c_pending s @ [(le32 bno 0, im)],
                          c_pos := (c_pos s + rsize) mod U32\<rparr>))
          else if rtype = REC_COMMIT then
            if rsize \<noteq> 4 then s\<lparr>c_break := True\<rparr>
            else
              s\<lparr>c_latest := commit_pending (c_latest s) latest_max (c_pending s),
                c_pending := [],
                c_pos := (c_pos s + rsize) mod U32\<rparr>
          else s\<lparr>c_break := True\<rparr>)"

definition collect_cond :: "nat \<Rightarrow> collect_state \<Rightarrow> bool" where
  "collect_cond used s \<longleftrightarrow> \<not> c_break s \<and> \<not> c_died s \<and> c_pos s + 4 \<le> used"

definition collect_init :: collect_state where
  "collect_init = \<lparr>c_pos = 8, c_pending = [], c_latest = [], c_break = False, c_died = False\<rparr>"

text \<open>
  \<open>None\<close> is a loop that never ends; \<open>Some (Inl Io)\<close> is the \<^verbatim>\<open>die\<close> of a short read;
  \<open>Some (Inr latest)\<close> is the array \<^verbatim>\<open>latest\<close> with its \<^verbatim>\<open>latest_n\<close> entries on return.
\<close>

definition journal_collect_latest_committed ::
  "image \<Rightarrow> journal_header \<Rightarrow> nat \<Rightarrow> (error + logged_image list) option" where
  "journal_collect_latest_committed img jh latest_max =
     (case while_option (collect_cond (nbytes_used jh))
             (collect_iter img (nbytes_used jh) latest_max) collect_init of
        None \<Rightarrow> None
      | Some s \<Rightarrow> Some (if c_died s then Inl Io else Inr (c_latest s)))"

section \<open>Install (lines 497-567)\<close>

record install_state =
  i_img :: image
  i_pos :: nat
  i_pending :: "logged_image list"
  i_commits :: nat
  i_break :: bool
  i_exit :: "error option"

definition install_iter :: "nat \<Rightarrow> install_state \<Rightarrow> install_state" where
  "install_iter used s =
     (case pread_exact (i_img s) 4 (journal_base_off + i_pos s) of
        None \<Rightarrow> s\<lparr>i_exit := Some Io\<rparr>
      | Some rh \<Rightarrow>
          let rtype = le16 rh 0; rsize = le16 rh 2 in
          if rsize < 4 then s\<lparr>i_break := True\<rparr>
          else if (i_pos s + rsize) mod U32 > used then s\<lparr>i_break := True\<rparr>
          else if rtype = REC_DATA then
            if rsize \<noteq> 4 + 4 + BLOCK_SIZE then s\<lparr>i_break := True\<rparr>
            else if length (i_pending s) \<ge> 64 then s\<lparr>i_exit := Some TxnTooLarge\<rparr>
            else
              (case pread_exact (i_img s) 4 (journal_base_off + i_pos s + 4) of
                 None \<Rightarrow> s\<lparr>i_exit := Some Io\<rparr>
               | Some bno \<Rightarrow>
                   (case pread_exact (i_img s) BLOCK_SIZE (journal_base_off + i_pos s + 4 + 4) of
                      None \<Rightarrow> s\<lparr>i_exit := Some Io\<rparr>
                    | Some im \<Rightarrow>
                        s\<lparr>i_pending := i_pending s @ [(le32 bno 0, im)],
                          i_pos := (i_pos s + rsize) mod U32\<rparr>))
          else if rtype = REC_COMMIT then
            if rsize \<noteq> 4 then s\<lparr>i_break := True\<rparr>
            else
              s\<lparr>i_img := fold (\<lambda>p im. write_block im (fst p) (snd p)) (i_pending s) (i_img s),
                i_pending := [],
                i_commits := i_commits s + 1,
                i_pos := (i_pos s + rsize) mod U32\<rparr>
          else s\<lparr>i_break := True\<rparr>)"

definition install_cond :: "nat \<Rightarrow> install_state \<Rightarrow> bool" where
  "install_cond used s \<longleftrightarrow> \<not> i_break s \<and> i_exit s = None \<and> i_pos s + 4 \<le> used"

definition install_init :: "image \<Rightarrow> install_state" where
  "install_init img =
     \<lparr>i_img = img, i_pos = 8, i_pending = [], i_commits = 0, i_break = False, i_exit = None\<rparr>"

text \<open>
  The result is the outcome of the run (the error of its \<^verbatim>\<open>exit(1)\<close>, or the number of
  commits it prints) and the image file it leaves; \<open>None\<close> is a run that never ends.
\<close>

definition cmd_install :: "image \<Rightarrow> ((error + nat) \<times> image) option" where
  "cmd_install img =
     (case journal_fail_if_missing img of
        Inl e \<Rightarrow> Some (Inl e, img)
      | Inr jh \<Rightarrow>
          (case while_option (install_cond (nbytes_used jh)) (install_iter (nbytes_used jh))
                  (install_init img) of
             None \<Rightarrow> None
           | Some s \<Rightarrow>
               (case i_exit s of
                  Some e \<Rightarrow> Some (Inl e, i_img s)
                | None \<Rightarrow>
                    Some (Inr (i_commits s),
                          journal_write_header (journal_clear_region (i_img s)) fresh_header))))"

section \<open>Create (lines 301-494)\<close>

text \<open>
  The four buffers \<^verbatim>\<open>inode_bm\<close>, \<^verbatim>\<open>itbl19\<close>, \<^verbatim>\<open>itbl20\<close> and \<^verbatim>\<open>root_dir_img\<close> of
  \<^verbatim>\<open>cmd_create\<close>, with \<^verbatim>\<open>root_dir_block_no\<close>. The struct views \<^verbatim>\<open>in19\<close>, \<^verbatim>\<open>in20\<close>
  and \<^verbatim>\<open>ents\<close> are fields of these buffers at their byte offsets: in inode \<open>k\<close> of a table
  block \<^verbatim>\<open>type\<close> is at \<open>128 * k\<close>, \<^verbatim>\<open>size\<close> at \<open>128 * k + 4\<close>, \<^verbatim>\<open>direct[0]\<close> at
  \<open>128 * k + 8\<close>, \<^verbatim>\<open>ctime\<close> at \<open>128 * k + 40\<close>, \<^verbatim>\<open>mtime\<close> at \<open>128 * k + 44\<close>; in entry
  \<open>i\<close> of the directory block \<^verbatim>\<open>inode\<close> is at \<open>32 * i\<close> and \<^verbatim>\<open>name\<close> at \<open>32 * i + 4\<close>.
\<close>

record view =
  inode_bm :: "u8 list"
  itbl19 :: "u8 list"
  itbl20 :: "u8 list"
  root_dir_block_no :: nat
  root_dir_img :: "u8 list"

text \<open>Lines 318-345: the live blocks.\<close>

definition create_read_live :: "image \<Rightarrow> error + view" where
  "create_read_live img =
     (case read_block img INODE_BMAP_BLK of
        None \<Rightarrow> Inl Io
      | Some bm \<Rightarrow>
     (case read_block img (INODE_TABLE_BLK + 0) of
        None \<Rightarrow> Inl Io
      | Some t19 \<Rightarrow>
     (case read_block img (INODE_TABLE_BLK + 1) of
        None \<Rightarrow> Inl Io
      | Some t20 \<Rightarrow>
          if le16 t19 0 \<noteq> 2 then Inl RootNotDir
          else if le32 t19 8 = 0 then Inl RootNoBlock
          else
            (case read_block img (le32 t19 8) of
               None \<Rightarrow> Inl Io
             | Some dir \<Rightarrow>
                 Inr \<lparr>inode_bm = bm, itbl19 = t19, itbl20 = t20,
                      root_dir_block_no = le32 t19 8, root_dir_img = dir\<rparr>))))"

text \<open>\<^verbatim>\<open>img = logged_image_find(...); if (img) memcpy(buf, img, BLOCK_SIZE);\<close>\<close>

definition overlaid :: "logged_image list \<Rightarrow> nat \<Rightarrow> u8 list \<Rightarrow> u8 list" where
  "overlaid latest block_no buf =
     (case logged_image_find latest block_no of None \<Rightarrow> buf | Some im \<Rightarrow> im)"

text \<open>Lines 348-384: the images of the journal's committed transactions replace the live ones.\<close>

definition create_overlay :: "image \<Rightarrow> journal_header \<Rightarrow> view \<Rightarrow> (error + view) option" where
  "create_overlay img jh v =
     (if nbytes_used jh > 8 then
        (case journal_collect_latest_committed img jh 64 of
           None \<Rightarrow> None
         | Some (Inl e) \<Rightarrow> Some (Inl e)
         | Some (Inr latest) \<Rightarrow>
             let bm = overlaid latest INODE_BMAP_BLK (inode_bm v);
                 t19 = overlaid latest (INODE_TABLE_BLK + 0) (itbl19 v);
                 t20 = overlaid latest (INODE_TABLE_BLK + 1) (itbl20 v)
             in
               if le16 t19 0 \<noteq> 2 then Some (Inl RootNotDir)
               else if le32 t19 8 = 0 then Some (Inl RootNoBlock)
               else
                 (case read_block img (le32 t19 8) of
                    None \<Rightarrow> Some (Inl Io)
                  | Some dir \<Rightarrow>
                      Some (Inr \<lparr>inode_bm = bm, itbl19 = t19, itbl20 = t20,
                                 root_dir_block_no = le32 t19 8,
                                 root_dir_img = overlaid latest (le32 t19 8) dir\<rparr>)))
      else Some (Inr v))"

text \<open>
  \<^verbatim>\<open>strncmp(s1, s2, n) == 0\<close>. The source calls it on the 28 bytes of a name field and on
  the argument with its terminating NUL, with \<open>n = 28\<close>: it never reads past the end of
  either, and the last equation is not reached.
\<close>

fun strncmp_is0 :: "u8 list \<Rightarrow> u8 list \<Rightarrow> nat \<Rightarrow> bool" where
  "strncmp_is0 (x # xs) (y # ys) n =
     (if n = 0 then True
      else if x \<noteq> y then False
      else if x = 0 then True
      else strncmp_is0 xs ys (n - 1))"
| "strncmp_is0 xs ys n = (n = 0)"

text \<open>Lines 432-440: some entry in use below \<open>used_entries\<close> has the name.\<close>

definition dir_has_name :: "u8 list \<Rightarrow> nat \<Rightarrow> u8 list \<Rightarrow> bool" where
  "dir_has_name dir used_entries name =
     list_ex (\<lambda>i. le32 dir (32 * i) \<noteq> 0
               \<and> strncmp_is0 (take NAME_LEN (drop (32 * i + 4) dir)) (name @ [0]) NAME_LEN)
       [0..<used_entries]"

text \<open>Lines 387-393: the first clear bit among 1..63 (\<open>None\<close> is \<^verbatim>\<open>(uint32_t)-1\<close>).\<close>

definition alloc_scan :: "u8 list \<Rightarrow> nat option" where
  "alloc_scan bm = find (\<lambda>i. bitmap_test bm i = 0) [1..<64]"

text \<open>Lines 459-465: the bytes of the new inode \<^verbatim>\<open>ni\<close>.\<close>

definition new_inode_bytes :: "nat \<Rightarrow> u8 list" where
  "new_inode_bytes now =
     enc16 1 @ enc16 1 @ enc32 0 @ replicate 32 0 @ enc32 now @ enc32 now @ replicate 80 0"

text \<open>
  Lines 387-475: allocation, the checks and the changes in memory. The result is
  \<^verbatim>\<open>inode_block_index\<close> with the buffers as they are logged.
\<close>

definition create_build ::
  "view \<Rightarrow> journal_header \<Rightarrow> u8 list \<Rightarrow> nat \<Rightarrow> error + nat \<times> view" where
  "create_build v jh name now =
     (case alloc_scan (inode_bm v) of
        None \<Rightarrow> Inl NoFreeInode
      | Some new_inum \<Rightarrow>
          let inodes_per_block = BLOCK_SIZE div INODE_SIZE;
              inode_block_index = new_inum div inodes_per_block;
              inode_off = new_inum mod inodes_per_block
          in
          if inode_block_index \<ge> INODE_TABLE_BLKS then Inl InodeOutOfRange
          else if le16 (if inode_block_index = 0 then itbl19 v else itbl20 v)
                    (INODE_SIZE * inode_off) \<noteq> 0
          then Inl CorruptBitmap
          else
            let nents = BLOCK_SIZE div 32;
                used_entries0 = le32 (itbl19 v) 4 div 32;
                used_entries = (if used_entries0 < 2 then 2 else used_entries0)
            in
            if used_entries \<ge> nents then Inl DirFull
            else if dir_has_name (root_dir_img v) used_entries name then Inl Exists
            else
              let nmods = 3 + (if inode_block_index = 1 then 1 else 0);
                  txn_bytes = nmods * (4 + 4 + BLOCK_SIZE) + 4
              in
              if (nbytes_used jh + txn_bytes) mod U32 > journal_capacity_bytes
              then Inl JournalFull
              else
                let bm' = bitmap_set (inode_bm v) new_inum;
                    t19a = (if inode_block_index = 0
                            then blit (itbl19 v) (INODE_SIZE * inode_off) (new_inode_bytes now)
                            else itbl19 v);
                    t20a = (if inode_block_index = 0 then itbl20 v
                            else blit (itbl20 v) (INODE_SIZE * inode_off) (new_inode_bytes now));
                    dir1 = blit (root_dir_img v) (32 * used_entries) (enc32 new_inum);
                    dir2 = blit dir1 (32 * used_entries + 4) (replicate NAME_LEN 0);
                    dir3 = blit dir2 (32 * used_entries + 4)
                             (take (NAME_LEN - 1) name
                              @ replicate (NAME_LEN - 1 - length (take (NAME_LEN - 1) name)) 0);
                    t19b = blit t19a 4 (enc32 ((le32 t19a 4 + 32) mod U32));
                    t19c = blit t19b 44 (enc32 now)
                in Inr (inode_block_index,
                        \<lparr>inode_bm = bm', itbl19 = t19c, itbl20 = t20a,
                         root_dir_block_no = root_dir_block_no v, root_dir_img = dir3\<rparr>))"

text \<open>Lines 477-490: the DATA records and the COMMIT.\<close>

definition create_log ::
  "image \<Rightarrow> journal_header \<Rightarrow> nat \<Rightarrow> view \<Rightarrow> (error + journal_header) \<times> image" where
  "create_log img jh inode_block_index v =
     jthen (journal_append_data img jh INODE_BMAP_BLK (inode_bm v)) (\<lambda>img1 jh1.
     jthen (journal_append_data img1 jh1 (INODE_TABLE_BLK + 0) (itbl19 v)) (\<lambda>img2 jh2.
     jthen (if inode_block_index = 1
            then journal_append_data img2 jh2 (INODE_TABLE_BLK + 1) (itbl20 v)
            else (Inr jh2, img2)) (\<lambda>img3 jh3.
     jthen (journal_append_data img3 jh3 (root_dir_block_no v) (root_dir_img v)) (\<lambda>img4 jh4.
     journal_append_commit img4 jh4))))"

text \<open>
  \<^verbatim>\<open>cmd_create\<close>: \<open>arg\<close> holds the bytes of the argument, read as a C string up to its first
  NUL; \<open>now\<close> is the value of \<^verbatim>\<open>time(NULL)\<close>. The result is the outcome of the run
  (\<open>Inl\<close> the error of its \<^verbatim>\<open>exit(1)\<close>) and the image file it leaves; \<open>None\<close> is a run that
  never ends.
\<close>

definition cmd_create :: "image \<Rightarrow> u8 list \<Rightarrow> nat \<Rightarrow> ((error + unit) \<times> image) option" where
  "cmd_create img arg now =
     (let name = takeWhile (\<lambda>c. c \<noteq> 0) arg in
      if name = [] then Some (Inl NameInvalid, img)
      else if length name \<ge> NAME_LEN then Some (Inl NameInvalid, img)
      else
        (case journal_init_if_needed img of
           (Inl e, img1) \<Rightarrow> Some (Inl e, img1)
         | (Inr jh, img1) \<Rightarrow>
        (case create_read_live img1 of
           Inl e \<Rightarrow> Some (Inl e, img1)
         | Inr v0 \<Rightarrow>
        (case create_overlay img1 jh v0 of
           None \<Rightarrow> None
         | Some (Inl e) \<Rightarrow> Some (Inl e, img1)
         | Some (Inr v) \<Rightarrow>
        (case create_build v jh name now of
           Inl e \<Rightarrow> Some (Inl e, img1)
         | Inr (inode_block_index, v') \<Rightarrow>
        (case create_log img1 jh inode_block_index v' of
           (Inl e, img2) \<Rightarrow> Some (Inl e, img2)
         | (Inr jh', img2) \<Rightarrow> Some (Inr (), img2)))))))"

section \<open>The journal as the specification describes it\<close>

text \<open>
  The definitions of this section follow the specification's words, not the code: they say
  what a journal holds, and the theorems below compare the code with them.
\<close>

datatype jrec = DATA nat "u8 list" | COMMIT

text \<open>The bytes of a record (section 3 of the specification).\<close>

fun enc_rec :: "jrec \<Rightarrow> u8 list" where
  "enc_rec (DATA b im) = enc16 1 @ enc16 4104 @ enc32 b @ im"
| "enc_rec COMMIT = enc16 2 @ enc16 4"

definition enc_recs :: "jrec list \<Rightarrow> u8 list" where
  "enc_recs rs = concat (map enc_rec rs)"

fun wf_rec :: "jrec \<Rightarrow> bool" where
  "wf_rec (DATA b im) \<longleftrightarrow> b < U32 \<and> length im = 4096"
| "wf_rec COMMIT \<longleftrightarrow> True"

text \<open>
  The decoding scan of section 4.R: the records read from position \<open>pos\<close> of a journal
  with \<open>used\<close> bytes in use, up to the first stop condition.
\<close>

function spec_decode :: "image \<Rightarrow> nat \<Rightarrow> nat \<Rightarrow> jrec list" where
  "spec_decode img used pos =
     (if pos + 4 \<le> used then
        (case pread_exact img 4 (journal_base_off + pos) of
           None \<Rightarrow> []
         | Some rh \<Rightarrow>
             if le16 rh 2 < 4 \<or> pos + le16 rh 2 > used then []
             else if le16 rh 0 = 1 then
               (if le16 rh 2 \<noteq> 4104 then []
                else
                  (case pread_exact img 4 (journal_base_off + pos + 4) of
                     None \<Rightarrow> []
                   | Some bno \<Rightarrow>
                       (case pread_exact img 4096 (journal_base_off + pos + 8) of
                          None \<Rightarrow> []
                        | Some im \<Rightarrow>
                            DATA (le32 bno 0) im # spec_decode img used (pos + le16 rh 2))))
             else if le16 rh 0 = 2 then
               (if le16 rh 2 \<noteq> 4 then []
                else COMMIT # spec_decode img used (pos + le16 rh 2))
             else [])
      else [])"
  by pat_completeness auto
termination
  by (relation "measure (\<lambda>(img, used, pos). used - pos)") auto

declare spec_decode.simps [simp del]

text \<open>
  The committed transactions of a record sequence: each run of DATA records closed by a
  COMMIT, with \<open>cur\<close> the DATA records since the last COMMIT. The DATA records after the
  last COMMIT belong to no transaction.
\<close>

fun spec_txns :: "jrec list \<Rightarrow> logged_image list \<Rightarrow> logged_image list list" where
  "spec_txns [] cur = []"
| "spec_txns (DATA b im # rs) cur = spec_txns rs (cur @ [(b, im)])"
| "spec_txns (COMMIT # rs) cur = cur # spec_txns rs []"

text \<open>The image of the last DATA record of a transaction that names block \<open>b\<close>.\<close>

definition last_image :: "logged_image list \<Rightarrow> nat \<Rightarrow> u8 list option" where
  "last_image t b =
     (let es = filter (\<lambda>e. fst e = b) t in if es = [] then None else Some (snd (last es)))"

text \<open>
  The latest-committed overlay of section 3: for a block named by some committed
  transaction, its image in the latest committed transaction that names it.
\<close>

definition spec_overlay :: "logged_image list list \<Rightarrow> nat \<Rightarrow> u8 list option" where
  "spec_overlay txns b =
     (let ts = filter (\<lambda>t. last_image t b \<noteq> None) txns
      in if ts = [] then None else last_image (last ts) b)"

text \<open>
  Replay (section 4.I): the block writes of the transactions, in the order of their
  records, earlier transactions first.
\<close>

definition replay_txn :: "logged_image list \<Rightarrow> image \<Rightarrow> image" where
  "replay_txn t img = fold (\<lambda>p im. write_block im (fst p) (snd p)) t img"

definition replay :: "logged_image list list \<Rightarrow> image \<Rightarrow> image" where
  "replay txns img = fold replay_txn txns img"

text \<open>The records of a transaction, and the records that fit whole into \<open>n\<close> bytes.\<close>

definition txn_recs :: "logged_image list \<Rightarrow> jrec list" where
  "txn_recs t = map (\<lambda>p. DATA (fst p) (snd p)) t @ [COMMIT]"

text \<open>The records of a sequence of transactions.\<close>

definition recs_of :: "logged_image list list \<Rightarrow> jrec list" where
  "recs_of txns = concat (map txn_recs txns)"

fun fit :: "nat \<Rightarrow> jrec list \<Rightarrow> jrec list" where
  "fit n [] = []"
| "fit n (r # rs) =
     (if length (enc_rec r) \<le> n then r # fit (n - length (enc_rec r)) rs else [])"

text \<open>The journal region cleared, with a fresh header (install, and the first create).\<close>

definition reset_journal :: "image \<Rightarrow> image" where
  "reset_journal img = journal_write_header (journal_clear_region img) fresh_header"

section \<open>Notions of the proofs\<close>

text \<open>
  Block images of 4096 bytes with block numbers of 32 bits; blocks outside the journal
  region (block 0, or a block from 17 on).
\<close>

definition entry_wf :: "logged_image \<Rightarrow> bool" where
  "entry_wf p \<longleftrightarrow> length (snd p) = 4096 \<and> fst p < U32"

definition safe_entry :: "logged_image \<Rightarrow> bool" where
  "safe_entry p \<longleftrightarrow> (fst p = 0 \<or> 17 \<le> fst p) \<and> length (snd p) = 4096"

definition view_wf :: "view \<Rightarrow> bool" where
  "view_wf v \<longleftrightarrow>
     length (inode_bm v) = 4096 \<and> length (itbl19 v) = 4096 \<and> length (itbl20 v) = 4096
     \<and> length (root_dir_img v) = 4096 \<and> root_dir_block_no v < U32"

text \<open>The first \<open>used\<close> bytes of the journal region: the bytes in use.\<close>

definition jbytes :: "nat \<Rightarrow> image \<Rightarrow> u8 list" where
  "jbytes used img = take used (drop 4096 img)"

text \<open>
  The image after the bytes \<open>bytes\<close> were appended at position \<open>used\<close> of the journal and
  the header bytes \<open>hdr\<close> written.
\<close>

definition jput :: "image \<Rightarrow> nat \<Rightarrow> u8 list \<Rightarrow> u8 list \<Rightarrow> image" where
  "jput img used bytes hdr = pwrite_exact (pwrite_exact img bytes (4096 + used)) hdr 4096"

text \<open>The transaction create logs from its buffers (lines 477-488).\<close>

definition txn_of :: "nat \<Rightarrow> view \<Rightarrow> logged_image list" where
  "txn_of idx v =
     [(17, inode_bm v), (19, itbl19 v)] @ (if idx = 1 then [(20, itbl20 v)] else [])
       @ [(root_dir_block_no v, root_dir_img v)]"

text \<open>The overlay as a map, one record at a time.\<close>

fun run_overlay ::
  "jrec list \<Rightarrow> logged_image list \<Rightarrow> (nat \<rightharpoonup> u8 list) \<Rightarrow> (nat \<rightharpoonup> u8 list)" where
  "run_overlay [] pend m = m"
| "run_overlay (DATA b im # rs) pend m = run_overlay rs (pend @ [(b, im)]) m"
| "run_overlay (COMMIT # rs) pend m = run_overlay rs [] (m ++ map_of (rev pend))"

text \<open>Invariants of the two scan loops.\<close>

definition install_inv :: "nat \<Rightarrow> install_state \<Rightarrow> bool" where
  "install_inv used s \<longleftrightarrow>
     8 + 4104 * length (i_pending s) \<le> i_pos s \<and> i_pos s \<le> used
     \<and> i_exit s \<noteq> Some TxnTooLarge"

definition install_measure :: "nat \<Rightarrow> install_state \<Rightarrow> nat" where
  "install_measure used s =
     (if i_break s \<or> i_exit s \<noteq> None then 0 else used + 1 - i_pos s)"

definition install_ok :: "nat \<Rightarrow> install_state \<Rightarrow> bool" where
  "install_ok used s \<longleftrightarrow>
     install_inv used s \<and> i_exit s = None \<and> 4096 + used \<le> length (i_img s)"

definition collect_inv :: "nat \<Rightarrow> collect_state \<Rightarrow> bool" where
  "collect_inv used s \<longleftrightarrow>
     \<not> c_break s \<and> \<not> c_died s
     \<and> 8 + 4104 * (length (c_pending s) + length (c_latest s)) \<le> c_pos s \<and> c_pos s \<le> used"

definition collect_wf :: "collect_state \<Rightarrow> bool" where
  "collect_wf s \<longleftrightarrow>
     (\<forall>p \<in> set (c_pending s). entry_wf p) \<and> (\<forall>p \<in> set (c_latest s). entry_wf p)"


text \<open>
  The image file \<open>img\<close> holds a journal with header \<open>jh\<close> whose record area is the
  records of the committed transactions \<open>txns\<close> and nothing else.
\<close>

definition journal_holds :: "image \<Rightarrow> journal_header \<Rightarrow> logged_image list list \<Rightarrow> bool" where
  "journal_holds img jh txns \<longleftrightarrow>
     69632 \<le> length img \<and> journal_read_header img = Some jh \<and> magic jh = JOURNAL_MAGIC
     \<and> nbytes_used jh = 8 + length (enc_recs (recs_of txns)) \<and> nbytes_used jh \<le> 65536
     \<and> take (nbytes_used jh - 8) (drop 4104 img) = enc_recs (recs_of txns)
     \<and> (\<forall>t \<in> set txns. \<forall>p \<in> set t. entry_wf p)"

text \<open>A buffer after the overlay of the transactions \<open>txns\<close> was copied over it.\<close>

definition overlay_or :: "logged_image list list \<Rightarrow> nat \<Rightarrow> u8 list \<Rightarrow> u8 list" where
  "overlay_or txns b buf = (case spec_overlay txns b of None \<Rightarrow> buf | Some im \<Rightarrow> im)"


section \<open>Example inputs\<close>

text \<open>
  A view whose inode bitmap repeats the byte \<open>b\<close> and whose inode table block 0 holds a
  root directory inode followed by the byte \<open>t\<close>.
\<close>

definition demo_view :: "u8 \<Rightarrow> u8 \<Rightarrow> view" where
  "demo_view b t =
     \<lparr>inode_bm = replicate 4096 b, itbl19 = 2 # replicate 4095 t,
      itbl20 = replicate 4096 0, root_dir_block_no = 21, root_dir_img = replicate 4096 0\<rparr>"



text \<open>
  A journal of two committed transactions and a third one cut after 21528 bytes of records
  (in the middle of its second DATA record), in an image file of 22 blocks.
\<close>

definition demo_t1 :: "logged_image list" where
  "demo_t1 = [(17, replicate 4096 1), (17, replicate 4096 2)]"

definition demo_t2 :: "logged_image list" where
  "demo_t2 = [(17, replicate 4096 3), (19, replicate 4096 4)]"

definition demo_t3 :: "logged_image list" where
  "demo_t3 = [(20, replicate 4096 5), (21, replicate 4096 6)]"

definition demo_jh :: journal_header where
  "demo_jh = \<lparr>magic = JOURNAL_MAGIC, nbytes_used = 21536\<rparr>"

definition demo_torn :: image where
  "demo_torn =
     jput (replicate 90112 0) 8
       (take 21528 (enc_recs (recs_of [demo_t1, demo_t2] @ txn_recs demo_t3)))
       (enc32 JOURNAL_MAGIC @ enc32 21536)"

text \<open>
  An image file that ends right after its journal header, which counts 12 bytes in use.
\<close>

definition demo_short :: image where
  "demo_short = replicate 4096 0 @ enc32 JOURNAL_MAGIC @ enc32 12"

text \<open>
  A journal whose first transaction writes block 3, a block of the journal region, and
  whose second transaction is cut 4 bytes into its second DATA record: the header counts
  8224 bytes and does not cover the COMMIT of the second transaction. The image written to
  block 3 holds the bytes of a COMMIT record at its offset 28, which is byte 8220 of the
  journal. \<open>overwrite_mid\<close> is the image file after the first transaction is replayed.
\<close>

definition overwrite_x :: "u8 list" where
  "overwrite_x = replicate 28 0 @ [2, 0, 4, 0] @ replicate 4064 0"

definition overwrite_t1 :: "logged_image list" where
  "overwrite_t1 = [(3, overwrite_x)]"

definition overwrite_t2 :: "logged_image list" where
  "overwrite_t2 = [(17, replicate 4096 7), (18, replicate 4096 9)]"

definition overwrite_img :: image where
  "overwrite_img =
     replicate 4096 0 @ enc32 JOURNAL_MAGIC @ enc32 8224
       @ enc_rec (DATA 3 overwrite_x) @ enc_rec COMMIT @ enc_rec (DATA 17 (replicate 4096 7))
       @ take 4 (enc_rec (DATA 18 (replicate 4096 9))) @ replicate 77792 0"

definition overwrite_jh :: journal_header where
  "overwrite_jh = \<lparr>magic = JOURNAL_MAGIC, nbytes_used = 8224\<rparr>"

definition overwrite_mid :: image where
  "overwrite_mid = write_block overwrite_img 3 overwrite_x"

text \<open>
  An image file cut in the middle of the only record of its journal, a DATA record for
  block 17 that the header (4112 bytes in use) counts in full.
\<close>

definition cut_img :: image where
  "cut_img =
     replicate 4096 0 @ enc32 JOURNAL_MAGIC @ enc32 4112
       @ take 2000 (enc_rec (DATA 17 (replicate 4096 7)))"

definition cut_jh :: journal_header where
  "cut_jh = \<lparr>magic = JOURNAL_MAGIC, nbytes_used = 4112\<rparr>"

text \<open>
  A freshly formatted image of 22 blocks: the journal region is zero, the inode bitmap has
  bit 0 set only, inode 0 is a directory of size 0 whose first direct block is block 21,
  and block 21 is zero. \<open>demo_v0\<close> is what create reads from it.
\<close>

definition demo_fresh :: image where
  "demo_fresh =
     replicate 69632 0 @ (1 # replicate 8191 0)
       @ ([2, 0, 0, 0, 0, 0, 0, 0, 21, 0, 0, 0] @ replicate 4084 0) @ replicate 8192 0"

definition demo_v0 :: view where
  "demo_v0 =
     \<lparr>inode_bm = 1 # replicate 4095 0,
      itbl19 = [2, 0, 0, 0, 0, 0, 0, 0, 21, 0, 0, 0] @ replicate 4084 0,
      itbl20 = replicate 4096 0, root_dir_block_no = 21, root_dir_img = replicate 4096 0\<rparr>"









section \<open>Bytes and fields\<close>

lemma unat_of_nat8: "unat (of_nat v :: u8) = v mod 256"
  by (simp add: unat_of_nat)

lemma split16: "(v::nat) mod 65536 = v mod 256 + 256 * (v div 256 mod 256)"
  using mod_mult2_eq [of v 256 256] by simp

lemma split32:
  "(v::nat) mod 4294967296 =
     v mod 256 + 256 * (v div 256 mod 256) + 65536 * (v div 65536 mod 256)
       + 16777216 * (v div 16777216 mod 256)"
proof -
  have a: "v mod 4294967296 = v mod 65536 + 65536 * (v div 65536 mod 65536)"
    using mod_mult2_eq [of v 65536 65536] by simp
  have b: "v div 65536 div 256 = v div 16777216"
    using div_mult2_eq [of v 65536 256] by simp
  show ?thesis
    unfolding a split16 [of v] split16 [of "v div 65536"] b by simp
qed

lemma le16_enc16: "le16 (enc16 v @ xs) 0 = v mod 65536"
  unfolding le16_def enc16_def by (simp add: unat_of_nat8 split16)

lemma le32_enc32: "le32 (enc32 v @ xs) 0 = v mod U32"
  unfolding le32_def enc32_def by (simp add: unat_of_nat8 split32)

subsection \<open>Loops over an index range, one step at a time\<close>

lemma find_upt_unfold:
  "find P [i..<n] = (if i < n then (if P i then Some i else find P [Suc i..<n]) else None)"
  by (simp add: upt_rec)

lemma list_ex_upt_unfold:
  "list_ex P [i..<n] = (if i < n then (P i \<or> list_ex P [Suc i..<n]) else False)"
  by (simp add: upt_rec)

section \<open>Inode allocation in create\<close>

lemma alloc_scan_Some_iff:
  "alloc_scan bm = Some i \<longleftrightarrow>
     1 \<le> i \<and> i < 64 \<and> bitmap_test bm i = 0
     \<and> (\<forall>j. 1 \<le> j \<and> j < i \<longrightarrow> bitmap_test bm j \<noteq> 0)"
  unfolding alloc_scan_def find_Some_iff
  apply (auto simp del: upt_rec_numeral)
   apply (metis le0 Suc_less_eq le_antisym not0_implies_Suc)
  apply (rule_tac x="i - 1" in exI)
  apply auto
  done

lemma alloc_scan_None_iff:
  "alloc_scan bm = None \<longleftrightarrow> (\<forall>i. 1 \<le> i \<and> i < 64 \<longrightarrow> bitmap_test bm i \<noteq> 0)"
  unfolding alloc_scan_def find_None_iff
  by (auto simp del: upt_rec_numeral)

lemma create_build_not_out_of_range: "create_build v jh name now \<noteq> Inl InodeOutOfRange"
proof (cases "alloc_scan (inode_bm v)")
  case None
  then show ?thesis by (simp add: create_build_def)
next
  case (Some i)
  then have "i < 64" by (simp add: alloc_scan_Some_iff)
  then have "i div 32 < 2" by simp
  then show ?thesis using Some
    by (simp add: create_build_def Let_def)
qed

subsection \<open>The errors each part of create can end with\<close>

lemma journal_init_error: "journal_init_if_needed img = (Inl e, img1) \<Longrightarrow> e = Io \<and> img1 = img"
  by (auto simp: journal_init_if_needed_def split: option.splits if_splits)

lemma create_read_live_error:
  "create_read_live img = Inl e \<Longrightarrow> e = Io \<or> e = RootNotDir \<or> e = RootNoBlock"
  by (auto simp: create_read_live_def split: option.splits if_splits)

lemma collect_error:
  "journal_collect_latest_committed img jh m = Some (Inl e) \<Longrightarrow> e = Io"
  by (auto simp: journal_collect_latest_committed_def split: option.splits if_splits)

lemma create_overlay_error:
  "create_overlay img jh v = Some (Inl e) \<Longrightarrow> e = Io \<or> e = RootNotDir \<or> e = RootNoBlock"
  by (auto simp: create_overlay_def Let_def split: option.splits if_splits sum.splits
      dest: collect_error)

lemma append_bytes_error:
  "journal_append_bytes img jh src = (Inl e, img') \<Longrightarrow> e = JournalFull"
  by (auto simp: journal_append_bytes_def Let_def split: if_splits)

lemma jthen_error:
  assumes "jthen r f = (Inl e, img')"
    and "\<And>img1. r = (Inl e, img1) \<Longrightarrow> P"
    and "\<And>img1 jh1. f img1 jh1 = (Inl e, img') \<Longrightarrow> P"
  shows P
  using assms by (auto simp: jthen_def split: prod.splits sum.splits)

lemma append_data_error:
  "journal_append_data img jh b im = (Inl e, img') \<Longrightarrow> e = JournalFull"
  unfolding journal_append_data_def
  by (elim jthen_error) (auto dest: append_bytes_error)

lemma create_log_error:
  "create_log img jh idx v = (Inl e, img') \<Longrightarrow> e = JournalFull"
  unfolding create_log_def journal_append_commit_def
  by (elim jthen_error) (auto dest: append_bytes_error append_data_error split: if_splits)

lemma cmd_create_not_out_of_range:
  "cmd_create img arg now \<noteq> Some (Inl InodeOutOfRange, img')"
  unfolding cmd_create_def Let_def
  using create_build_not_out_of_range
  by (auto split: if_splits prod.splits sum.splits option.splits
      dest!: journal_init_error create_read_live_error create_overlay_error create_log_error)

text \<open>
  Claim C7. On the inode bitmap create works with (the live one, or the journal's image of
  it), the allocation scan returns \<open>i\<close> exactly when \<open>i\<close> is the smallest index in 1..63
  whose bit is clear. When the bits 1..63 are all set, create fails with \<open>NoFreeInode\<close>.
  When the scan has chosen \<open>k\<close> and the slot \<open>k mod 32\<close> of inode table block \<open>k div 32\<close>
  has a type other than 0, create fails with \<open>CorruptBitmap\<close>. When this part of create
  succeeds, the number it has set in the bitmap is the one the scan chose, from a slot of
  type 0.
\<close>

theorem create_allocates_first_clear_bit:
  "(alloc_scan bm = Some i \<longleftrightarrow>
      1 \<le> i \<and> i < 64 \<and> bitmap_test bm i = 0
      \<and> (\<forall>j. 1 \<le> j \<and> j < i \<longrightarrow> bitmap_test bm j \<noteq> 0))
   \<and> ((\<forall>j. 1 \<le> j \<and> j < 64 \<longrightarrow> bitmap_test (inode_bm v) j \<noteq> 0)
        \<longrightarrow> create_build v jh name now = Inl NoFreeInode)
   \<and> (alloc_scan (inode_bm v) = Some k
        \<and> le16 (if k div 32 = 0 then itbl19 v else itbl20 v) (128 * (k mod 32)) \<noteq> 0
        \<longrightarrow> create_build v jh name now = Inl CorruptBitmap)
   \<and> (create_build v jh name now = Inr (idx, v')
        \<longrightarrow> (\<exists>n. alloc_scan (inode_bm v) = Some n \<and> idx = n div 32
                 \<and> le16 (if n div 32 = 0 then itbl19 v else itbl20 v) (128 * (n mod 32)) = 0
                 \<and> inode_bm v' = bitmap_set (inode_bm v) n))"
proof (intro conjI impI)
  show "alloc_scan bm = Some i \<longleftrightarrow>
      1 \<le> i \<and> i < 64 \<and> bitmap_test bm i = 0
      \<and> (\<forall>j. 1 \<le> j \<and> j < i \<longrightarrow> bitmap_test bm j \<noteq> 0)"
    by (rule alloc_scan_Some_iff)
next
  assume "\<forall>j. 1 \<le> j \<and> j < 64 \<longrightarrow> bitmap_test (inode_bm v) j \<noteq> 0"
  then have "alloc_scan (inode_bm v) = None" by (simp add: alloc_scan_None_iff)
  then show "create_build v jh name now = Inl NoFreeInode"
    by (simp add: create_build_def)
next
  assume a: "alloc_scan (inode_bm v) = Some k
        \<and> le16 (if k div 32 = 0 then itbl19 v else itbl20 v) (128 * (k mod 32)) \<noteq> 0"
  then have "k < 64" by (simp add: alloc_scan_Some_iff)
  then have "k div 32 < 2" by simp
  with a show "create_build v jh name now = Inl CorruptBitmap"
    by (simp add: create_build_def Let_def)
next
  assume b: "create_build v jh name now = Inr (idx, v')"
  then obtain n where n: "alloc_scan (inode_bm v) = Some n"
    by (cases "alloc_scan (inode_bm v)") (auto simp: create_build_def)
  from b n show "\<exists>n. alloc_scan (inode_bm v) = Some n \<and> idx = n div 32
                 \<and> le16 (if n div 32 = 0 then itbl19 v else itbl20 v) (128 * (n mod 32)) = 0
                 \<and> inode_bm v' = bitmap_set (inode_bm v) n"
    by (auto simp: create_build_def Let_def split: if_splits)
qed

lemma demo_build_ok: "\<exists>v'. create_build (demo_view 1 0) fresh_header [97] 5 = Inr (0, v')"
  by (simp add: create_build_def demo_view_def alloc_scan_def find_upt_unfold bitmap_test_def
      le16_def le32_def Let_def dir_has_name_def list_ex_upt_unfold fresh_header_def
      journal_capacity_bytes_def del: upt_rec_numeral)

theorem create_allocates_first_clear_bit_witness:
  "alloc_scan (replicate 4096 1) = Some 1
   \<and> create_build (demo_view 255 0) fresh_header [97] 5 = Inl NoFreeInode
   \<and> create_build (demo_view 1 1) fresh_header [97] 5 = Inl CorruptBitmap
   \<and> (\<exists>v'. create_build (demo_view 1 0) fresh_header [97] 5 = Inr (0, v')
          \<and> inode_bm v' = bitmap_set (replicate 4096 1) 1)"
proof -
  have a: "alloc_scan (replicate 4096 1) = Some 1"
    by (simp add: alloc_scan_def find_upt_unfold bitmap_test_def del: upt_rec_numeral)
  have b: "\<forall>j. 1 \<le> j \<and> j < 64 \<longrightarrow> bitmap_test (inode_bm (demo_view 255 0)) j \<noteq> 0"
    unfolding alloc_scan_None_iff [symmetric]
    by (simp add: demo_view_def alloc_scan_def find_upt_unfold bitmap_test_def
        del: upt_rec_numeral)
  have c: "alloc_scan (inode_bm (demo_view 1 1)) = Some 1
     \<and> le16 (if (1::nat) div 32 = 0 then itbl19 (demo_view 1 1) else itbl20 (demo_view 1 1))
          (128 * (1 mod 32)) \<noteq> 0"
    by (simp add: demo_view_def alloc_scan_def find_upt_unfold bitmap_test_def le16_def
        del: upt_rec_numeral)
  obtain v' where d: "create_build (demo_view 1 0) fresh_header [97] 5 = Inr (0, v')"
    using demo_build_ok by blast
  have e: "inode_bm (demo_view 1 0) = replicate 4096 1" by (simp add: demo_view_def)
  show ?thesis
    using create_allocates_first_clear_bit
            [of "replicate 4096 1" 1 "demo_view 255 0" fresh_header "[97]" 5 1 0 v']
      create_allocates_first_clear_bit
            [of "replicate 4096 1" 1 "demo_view 1 1" fresh_header "[97]" 5 1 0 v']
      create_allocates_first_clear_bit
            [of "replicate 4096 1" 1 "demo_view 1 0" fresh_header "[97]" 5 1 0 v']
      a b c d e
    by auto
qed

text \<open>
  Claim C10. An inode number chosen by the allocation scan lies in 1..63, so its inode
  table block index is 0 or 1, and no run of create ends in the failure
  ``inode index out of range''.
\<close>

theorem alloc_index_in_range:
  "(alloc_scan bm = Some i \<longrightarrow> 1 \<le> i \<and> i < 64 \<and> i div 32 < 2)
   \<and> create_build v jh name now \<noteq> Inl InodeOutOfRange
   \<and> cmd_create img arg now \<noteq> Some (Inl InodeOutOfRange, img')"
proof (intro conjI impI)
  assume "alloc_scan bm = Some i"
  then have "1 \<le> i" "i < 64" by (simp_all add: alloc_scan_Some_iff)
  then show "1 \<le> i" "i < 64" "i div 32 < 2" by simp_all
next
  show "create_build v jh name now \<noteq> Inl InodeOutOfRange"
    by (rule create_build_not_out_of_range)
next
  show "cmd_create img arg now \<noteq> Some (Inl InodeOutOfRange, img')"
    by (rule cmd_create_not_out_of_range)
qed

theorem alloc_index_in_range_witness:
  "alloc_scan (replicate 4096 1) = Some 1 \<and> (1::nat) div 32 < 2"
proof -
  have a: "alloc_scan (replicate 4096 1) = Some 1"
    by (simp add: alloc_scan_def find_upt_unfold bitmap_test_def del: upt_rec_numeral)
  show ?thesis
    using alloc_index_in_range [of "replicate 4096 1" 1] a by simp
qed


section \<open>Lemmas\<close>

lemma pwrite_empty [simp]: "pwrite_exact img [] off = img"
  by (simp add: pwrite_exact_def)

lemma length_pwrite:
  "buf \<noteq> [] \<Longrightarrow> length (pwrite_exact img buf off) = max (length img) (off + length buf)"
  by (auto simp: pwrite_exact_def Let_def)

lemma length_pwrite_ge: "length img \<le> length (pwrite_exact img buf off)"
  by (cases "buf = []") (simp_all add: length_pwrite)

lemma length_pwrite_inside:
  "off + length buf \<le> length img \<Longrightarrow> length (pwrite_exact img buf off) = length img"
  by (cases "buf = []") (simp_all add: length_pwrite)

lemma nth_splice:
  assumes "off \<le> length xs" "a < max (length xs) (off + length buf)"
  shows "(take off xs @ buf @ drop (off + length buf) xs) ! a =
     (if off \<le> a \<and> a < off + length buf then buf ! (a - off) else xs ! a)"
  using assms by (auto simp: nth_append min_def)

lemma nth_pwrite:
  assumes "a < length (pwrite_exact img buf off)"
  shows "pwrite_exact img buf off ! a =
     (if off \<le> a \<and> a < off + length buf then buf ! (a - off)
      else if a < length img then img ! a else 0)"
proof (cases "buf = []")
  case True
  then show ?thesis using assms by auto
next
  case False
  let ?xs = "img @ replicate (off - length img) 0"
  have l: "off \<le> length ?xs" by simp
  have a: "a < max (length ?xs) (off + length buf)"
    using assms False by (auto simp: length_pwrite)
  have "pwrite_exact img buf off ! a = (take off ?xs @ buf @ drop (off + length buf) ?xs) ! a"
    using False by (simp add: pwrite_exact_def Let_def)
  also have "\<dots> = (if off \<le> a \<and> a < off + length buf then buf ! (a - off) else ?xs ! a)"
    by (rule nth_splice [OF l a])
  finally show ?thesis using assms False by (auto simp: nth_append length_pwrite)
qed

lemma slice_eqI:
  assumes "off + n \<le> length xs" "length ys = n" "\<And>i. i < n \<Longrightarrow> xs ! (off + i) = ys ! i"
  shows "take n (drop off xs) = ys"
  using assms by (intro nth_equalityI) auto

lemma slice_pwrite_same:
  "take (length buf) (drop off (pwrite_exact img buf off)) = buf"
proof (cases "buf = []")
  case False
  then show ?thesis
    by (intro slice_eqI) (auto simp: nth_pwrite length_pwrite)
qed simp

lemma slice_pwrite_other:
  assumes "o2 + n \<le> length img" "o2 + n \<le> off \<or> off + length buf \<le> o2"
  shows "take n (drop o2 (pwrite_exact img buf off)) = take n (drop o2 img)"
proof (cases "buf = []")
  case False
  with assms show ?thesis
    by (intro nth_equalityI) (auto simp: nth_pwrite length_pwrite)
qed simp

lemma pread_pwrite_other:
  assumes "o2 + n \<le> length img" "o2 + n \<le> off \<or> off + length buf \<le> o2"
  shows "pread_exact (pwrite_exact img buf off) n o2 = pread_exact img n o2"
  using assms slice_pwrite_other [OF assms] length_pwrite_ge [of img buf off]
  by (auto simp: pread_exact_def)

lemma pwrite_adjacent:
  "pwrite_exact (pwrite_exact img b1 off) b2 (off + length b1) = pwrite_exact img (b1 @ b2) off"
proof (cases "b1 = [] \<or> b2 = []")
  case True
  then show ?thesis by auto
next
  case False
  then show ?thesis
    by (intro nth_equalityI) (auto simp: nth_pwrite length_pwrite nth_append)
qed

lemma clear_fold:
  "fold (\<lambda>i im. write_block im (1 + i) (replicate 4096 0)) [0..<k] img =
     pwrite_exact img (replicate (k * 4096) 0) 4096"
proof (induction k)
  case 0
  show ?case by simp
next
  case (Suc k)
  have "write_block (pwrite_exact img (replicate (k * 4096) 0) 4096) (1 + k) (replicate 4096 0)
        = pwrite_exact img (replicate (k * 4096) 0 @ replicate 4096 0) 4096"
    unfolding write_block_def
    using pwrite_adjacent [of img "replicate (k * 4096) 0" 4096 "replicate 4096 0"]
    by (simp add: add.commute)
  then show ?case using Suc by (simp add: replicate_add [symmetric] add.commute)
qed

lemma journal_clear_region_eq:
  "journal_clear_region img = pwrite_exact img (replicate 65536 0) 4096"
  unfolding journal_clear_region_def using clear_fold [of 16 img] by simp

lemma unat8_lt: "unat (b :: u8) < 256"
  using unsigned_less [of b, where ?'a = nat] by simp

lemma le16_lt: "le16 b off < 65536"
  unfolding le16_def using unat8_lt [of "b ! off"] unat8_lt [of "b ! (off + 1)"] by simp

lemma le32_lt: "le32 b off < U32"
  unfolding le32_def
  using unat8_lt [of "b ! off"] unat8_lt [of "b ! (off + 1)"]
    unat8_lt [of "b ! (off + 2)"] unat8_lt [of "b ! (off + 3)"] by simp

lemma pos_add_no_wrap:
  "pos \<le> used \<Longrightarrow> used \<le> 65536 \<Longrightarrow> (pos + le16 rh 2) mod U32 = pos + le16 rh 2"
  using le16_lt [of rh 2] by simp

lemma install_iter_inv:
  assumes u: "used \<le> 65536" and inv: "install_inv used s" and c: "install_cond used s"
  shows "install_inv used (install_iter used s)
     \<and> install_measure used (install_iter used s) < install_measure used s"
proof -
  have p: "i_pos s \<le> used" using inv by (simp add: install_inv_def)
  note nw = pos_add_no_wrap [OF p u]
  show ?thesis
    using inv c u
    unfolding install_iter_def Let_def nw
    by (auto simp: install_inv_def install_cond_def install_measure_def
        split: option.splits)
qed

lemma install_loop_terminates:
  assumes u: "used \<le> 65536" and inv: "install_inv used s"
  shows "\<exists>t. while_option (install_cond used) (install_iter used) s = Some t"
  using measure_while_option_Some
    [where P = "install_inv used" and b = "install_cond used" and c = "install_iter used"
       and f = "install_measure used" and s = s]
    install_iter_inv [OF u] inv
  by blast

lemma install_loop_inv:
  assumes u: "used \<le> 65536" and inv: "install_inv used s"
    and w: "while_option (install_cond used) (install_iter used) s = Some t"
  shows "install_inv used t"
  using while_option_rule [where P = "install_inv used", OF _ w inv] install_iter_inv [OF u]
  by blast

lemma install_init_inv: "8 \<le> used \<Longrightarrow> install_inv used (install_init img)"
  by (simp add: install_inv_def install_init_def)

lemma valid_header_bounds:
  "journal_fail_if_missing img = Inr jh \<Longrightarrow> 8 \<le> nbytes_used jh \<and> nbytes_used jh \<le> 65536"
  by (auto simp: journal_fail_if_missing_def header_invalid_def journal_capacity_bytes_def
      split: option.splits if_splits)

lemma cmd_install_terminates: "\<exists>r. cmd_install img = Some r"
proof (cases "journal_fail_if_missing img")
  case (Inl e)
  then show ?thesis by (simp add: cmd_install_def)
next
  case (Inr jh)
  from valid_header_bounds [OF Inr] install_loop_terminates install_init_inv
  obtain t where "while_option (install_cond (nbytes_used jh)) (install_iter (nbytes_used jh))
     (install_init img) = Some t" by blast
  then show ?thesis using Inr by (simp add: cmd_install_def split: option.splits)
qed

lemma cmd_install_not_too_large: "cmd_install img \<noteq> Some (Inl TxnTooLarge, img')"
proof (cases "journal_fail_if_missing img")
  case (Inl e)
  then have "e = Io \<or> e = JournalMissing"
    by (auto simp: journal_fail_if_missing_def split: option.splits if_splits)
  then show ?thesis using Inl by (auto simp: cmd_install_def)
next
  case (Inr jh)
  note b = valid_header_bounds [OF Inr]
  show ?thesis
  proof
    assume a: "cmd_install img = Some (Inl TxnTooLarge, img')"
    then obtain t where t: "while_option (install_cond (nbytes_used jh))
        (install_iter (nbytes_used jh)) (install_init img) = Some t"
      and e: "i_exit t = Some TxnTooLarge"
      using Inr by (auto simp: cmd_install_def split: option.splits)
    from install_loop_inv [OF _ _ t] b install_init_inv have "install_inv (nbytes_used jh) t"
      by blast
    with e show False by (simp add: install_inv_def)
  qed
qed

lemma length_write_block_ge: "length img \<le> length (write_block img b im)"
  by (simp add: write_block_def length_pwrite_ge)

lemma length_replay_ge:
  "length img \<le> length (fold (\<lambda>p im. write_block im (fst p) (snd p)) ps img)"
proof (induction ps arbitrary: img)
  case (Cons p ps)
  show ?case using Cons [of "write_block img (fst p) (snd p)"]
      length_write_block_ge [of img "fst p" "snd p"] by simp
qed simp

lemma pread_ok: "off + n \<le> length img \<Longrightarrow> pread_exact img n off = Some (take n (drop off img))"
  by (simp add: pread_exact_def)

lemma install_iter_ok:
  assumes u: "used \<le> 65536" and inv: "install_ok used s" and c: "install_cond used s"
  shows "install_ok used (install_iter used s)"
proof -
  have p: "i_pos s \<le> used" using inv by (simp add: install_ok_def install_inv_def)
  note nw = pos_add_no_wrap [OF p u]
  have l: "4096 + used \<le> length (i_img s)" using inv by (simp add: install_ok_def)
  have r1: "pread_exact (i_img s) 4 (journal_base_off + i_pos s)
      = Some (take 4 (drop (journal_base_off + i_pos s) (i_img s)))"
    using l c u by (intro pread_ok) (simp add: install_cond_def journal_base_off_def)
  have i: "install_inv used (install_iter used s)"
    using install_iter_inv [OF u _ c] inv by (simp add: install_ok_def)
  have e: "i_exit (install_iter used s) = None
      \<and> 4096 + used \<le> length (i_img (install_iter used s))"
    using inv c u l length_replay_ge [of "i_img s" "i_pending s"]
    unfolding install_iter_def Let_def nw r1
    by (auto simp: install_ok_def install_inv_def install_cond_def pread_exact_def
        journal_base_off_def split: option.splits)
  show ?thesis using i e by (simp add: install_ok_def)
qed

lemma install_loop_ok:
  assumes u: "used \<le> 65536" and inv: "install_ok used s"
    and w: "while_option (install_cond used) (install_iter used) s = Some t"
  shows "install_ok used t"
  using while_option_rule [where P = "install_ok used", OF _ w inv] install_iter_ok [OF u]
  by blast

lemma le32_append_right: "le32 (xs @ ys) (length xs + k) = le32 ys k"
  by (simp add: le32_def nth_append add.assoc)

lemma length_enc32 [simp]: "length (enc32 v) = 4"
  by (simp add: enc32_def)

lemma enc32_nonempty [simp]: "enc32 v \<noteq> []"
  by (simp add: enc32_def)

lemma enc16_nonempty [simp]: "enc16 v \<noteq> []"
  by (simp add: enc16_def)

lemma length_enc16 [simp]: "length (enc16 v) = 2"
  by (simp add: enc16_def)

lemma le32_enc32_pair:
  "le32 (enc32 a @ enc32 b) 0 = a mod U32" "le32 (enc32 a @ enc32 b) 4 = b mod U32"
  using le32_enc32 [of a "enc32 b"] le32_append_right [of "enc32 a" "enc32 b" 0]
    le32_enc32 [of b "[]"] by simp_all

lemma reset_journal_eq:
  "reset_journal img =
     pwrite_exact img (enc32 JOURNAL_MAGIC @ enc32 8 @ replicate 65528 0) 4096"
proof -
  have "reset_journal img = pwrite_exact (pwrite_exact img (replicate 65536 0) 4096)
      (enc32 JOURNAL_MAGIC @ enc32 8) 4096"
    by (simp add: reset_journal_def journal_write_header_def journal_clear_region_eq
        fresh_header_def journal_base_off_def)
  also have "\<dots> = pwrite_exact img (enc32 JOURNAL_MAGIC @ enc32 8 @ replicate 65528 0) 4096"
    by (rule nth_equalityI) (auto simp: nth_pwrite length_pwrite nth_append)
  finally show ?thesis .
qed

lemma reset_journal_region:
  "take 65536 (drop 4096 (reset_journal img)) = enc32 JOURNAL_MAGIC @ enc32 8 @ replicate 65528 0"
  unfolding reset_journal_eq
  using slice_pwrite_same [of "enc32 JOURNAL_MAGIC @ enc32 8 @ replicate 65528 0" 4096 img]
  by simp

lemma reset_journal_header: "journal_read_header (reset_journal img) = Some fresh_header"
proof -
  have "take 8 (take 65536 (drop 4096 (reset_journal img))) = enc32 JOURNAL_MAGIC @ enc32 8"
    unfolding reset_journal_region by simp
  then have "take 8 (drop 4096 (reset_journal img)) = enc32 JOURNAL_MAGIC @ enc32 8"
    by simp
  moreover have "4104 \<le> length (reset_journal img)"
    unfolding reset_journal_eq by (simp add: length_pwrite)
  ultimately show ?thesis
    by (simp add: journal_read_header_def pread_exact_def journal_base_off_def
        le32_enc32_pair fresh_header_def)
qed

lemma reset_journal_idem: "reset_journal (reset_journal img) = reset_journal img"
  unfolding reset_journal_eq
  by (rule nth_equalityI) (auto simp: nth_pwrite length_pwrite)

lemma cmd_install_fresh:
  assumes "journal_read_header img = Some fresh_header"
  shows "cmd_install img = Some (Inr 0, reset_journal img)"
proof -
  have "journal_fail_if_missing img = Inr fresh_header"
    using assms by (simp add: journal_fail_if_missing_def header_invalid_def fresh_header_def
        journal_capacity_bytes_def)
  moreover have "while_option (install_cond 8) (install_iter 8) (install_init img)
      = Some (install_init img)"
    by (subst while_option_unfold) (simp add: install_cond_def install_init_def)
  ultimately show ?thesis
    by (simp add: cmd_install_def fresh_header_def install_init_def reset_journal_def)
qed

lemma cmd_install_success:
  assumes "cmd_install img = Some (Inr n, img')"
  shows "\<exists>im. img' = reset_journal im"
  using assms
  by (auto simp: cmd_install_def reset_journal_def split: sum.splits option.splits)

lemma install_twice: 
  assumes "cmd_install img = Some (Inr n, img1)"
  shows "cmd_install img1 = Some (Inr 0, img1)"
proof -
  obtain im where im: "img1 = reset_journal im" using cmd_install_success [OF assms] by blast
  show ?thesis
    unfolding im using cmd_install_fresh [OF reset_journal_header [of im]]
    by (simp add: reset_journal_idem)
qed

lemma install_clears:
  assumes h: "journal_read_header img = Some jh" and v: "\<not> header_invalid jh"
    and l: "journal_base_off + nbytes_used jh \<le> length img"
  shows "\<exists>n im. cmd_install img = Some (Inr n, reset_journal im)"
proof -
  have f: "journal_fail_if_missing img = Inr jh"
    using h v by (simp add: journal_fail_if_missing_def)
  note b = valid_header_bounds [OF f]
  have i: "install_ok (nbytes_used jh) (install_init img)"
    using b l install_init_inv [of "nbytes_used jh" img]
    by (simp add: install_ok_def install_init_def journal_base_off_def)
  obtain t where t: "while_option (install_cond (nbytes_used jh))
        (install_iter (nbytes_used jh)) (install_init img) = Some t"
    using install_loop_terminates [of "nbytes_used jh" "install_init img"] b
      install_init_inv [of "nbytes_used jh" img] by blast
  have "install_ok (nbytes_used jh) t" using install_loop_ok [OF _ i t] b by blast
  then have "i_exit t = None" by (simp add: install_ok_def)
  then have "cmd_install img = Some (Inr (i_commits t), reset_journal (i_img t))"
    using f t by (simp add: cmd_install_def reset_journal_def)
  then show ?thesis by blast
qed

lemma install_errors:
  assumes h: "journal_read_header img = Some jh" and v: "\<not> header_invalid jh"
    and r: "cmd_install img = Some (Inl e, img')"
  shows "e = Io"
proof -
  have f: "journal_fail_if_missing img = Inr jh"
    using h v by (simp add: journal_fail_if_missing_def)
  note b = valid_header_bounds [OF f]
  obtain t where t: "while_option (install_cond (nbytes_used jh))
        (install_iter (nbytes_used jh)) (install_init img) = Some t"
    and e: "i_exit t = Some e"
    using r f by (auto simp: cmd_install_def split: option.splits)
  have "i_exit t \<noteq> Some TxnTooLarge"
    using install_loop_inv [OF _ _ t] b install_init_inv [of "nbytes_used jh" img]
    by (auto simp: install_inv_def)
  moreover have "i_exit t = None \<or> i_exit t = Some Io \<or> i_exit t = Some TxnTooLarge"
  proof (rule while_option_rule [where P = "\<lambda>s. i_exit s = None \<or> i_exit s = Some Io
        \<or> i_exit s = Some TxnTooLarge", OF _ t])
    show "i_exit (install_init img) = None \<or> i_exit (install_init img) = Some Io
        \<or> i_exit (install_init img) = Some TxnTooLarge"
      by (simp add: install_init_def)
  next
    fix s
    assume "i_exit s = None \<or> i_exit s = Some Io \<or> i_exit s = Some TxnTooLarge"
      and "install_cond (nbytes_used jh) s"
    then have "i_exit s = None" by (simp add: install_cond_def)
    then show "i_exit (install_iter (nbytes_used jh) s) = None
        \<or> i_exit (install_iter (nbytes_used jh) s) = Some Io
        \<or> i_exit (install_iter (nbytes_used jh) s) = Some TxnTooLarge"
      by (auto simp: install_iter_def Let_def split: option.splits)
  qed
  ultimately show ?thesis using e by auto
qed

lemma logged_image_find_map_of: "logged_image_find arr b = map_of arr b"
  by (induction arr) auto

lemma upsert_find_Some:
  "upsert_find arr b im = Some arr' \<Longrightarrow>
     map_of arr' = (map_of arr)(b \<mapsto> im) \<and> length arr' = length arr"
proof (induction arr arbitrary: arr')
  case (Cons e arr)
  then show ?case by (cases e) (auto split: if_splits)
qed simp

lemma upsert_find_None: "upsert_find arr b im = None \<Longrightarrow> map_of arr b = None"
  by (induction arr) (auto split: if_splits)

lemma upsert_ok:
  assumes "length arr < m"
  shows "\<exists>arr'. logged_image_upsert arr m b im = (True, arr')
     \<and> map_of arr' = (map_of arr)(b \<mapsto> im) \<and> length arr' \<le> length arr + 1"
proof (cases "upsert_find arr b im")
  case None
  have "map_of (arr @ [(b, im)]) = (map_of arr)(b \<mapsto> im)"
    using upsert_find_None [OF None] by (auto simp: map_add_def fun_eq_iff split: option.splits)
  then show ?thesis using None assms by (simp add: logged_image_upsert_def)
next
  case (Some arr')
  then show ?thesis using upsert_find_Some [OF Some] by (simp add: logged_image_upsert_def)
qed

lemma commit_pending_ok:
  "length latest + length pending \<le> m \<Longrightarrow>
     map_of (commit_pending latest m pending) = map_of latest ++ map_of (rev pending)
     \<and> length (commit_pending latest m pending) \<le> length latest + length pending"
proof (induction pending arbitrary: latest)
  case Nil
  then show ?case by simp
next
  case (Cons p pending)
  then have "length latest < m" by simp
  from upsert_ok [OF this, of "fst p" "snd p"] obtain arr' where
    a: "logged_image_upsert latest m (fst p) (snd p) = (True, arr')"
    "map_of arr' = (map_of latest)(fst p \<mapsto> snd p)" "length arr' \<le> length latest + 1"
    by blast
  have "length arr' + length pending \<le> m" using a(3) Cons.prems by simp
  from Cons.IH [OF this] a show ?case
    by (cases p) (auto simp: map_add_def fun_eq_iff split: option.splits)
qed

lemma collect_stop:
  "\<not> collect_cond used s \<Longrightarrow>
     while_option (collect_cond used) (collect_iter img used m) s = Some s"
  by (subst while_option_unfold) simp

lemma collect_go:
  "collect_cond used s \<Longrightarrow>
     while_option (collect_cond used) (collect_iter img used m) s
       = while_option (collect_cond used) (collect_iter img used m) (collect_iter img used m s)"
  by (subst while_option_unfold) simp

lemma collect_run:
  assumes u: "used \<le> 65536" and l: "4096 + used \<le> length img"
  shows "collect_inv used s \<Longrightarrow>
     \<exists>t. while_option (collect_cond used) (collect_iter img used 64) s = Some t
        \<and> \<not> c_died t
        \<and> map_of (c_latest t)
            = run_overlay (spec_decode img used (c_pos s)) (c_pending s) (map_of (c_latest s))"
proof (induction "used - c_pos s" arbitrary: s rule: less_induct)
  case less
  note inv = less.prems
  let ?pos = "c_pos s"
  have p: "?pos \<le> used" and nb: "\<not> c_break s" and nd: "\<not> c_died s"
    and cnt: "8 + 4104 * (length (c_pending s) + length (c_latest s)) \<le> ?pos"
    using inv by (simp_all add: collect_inv_def)
  show ?case
  proof (cases "?pos + 4 \<le> used")
    case False
    then have "\<not> collect_cond used s" by (simp add: collect_cond_def)
    from collect_stop [OF this] have "while_option (collect_cond used) (collect_iter img used 64) s = Some s" .
    moreover have "spec_decode img used ?pos = []"
      using False by (subst spec_decode.simps) simp
    ultimately show ?thesis using nd by simp
  next
    case True
    then have c: "collect_cond used s" using nb nd by (simp add: collect_cond_def)
    define rh where "rh = take 4 (drop (journal_base_off + ?pos) img)"
    have r1: "pread_exact img 4 (journal_base_off + ?pos) = Some rh"
      unfolding rh_def using l True by (intro pread_ok) (simp add: journal_base_off_def)
    note nw = pos_add_no_wrap [OF p u, of rh]
    consider (brk) "le16 rh 2 < 4 \<or> ?pos + le16 rh 2 > used \<or> (le16 rh 0 = 1 \<and> le16 rh 2 \<noteq> 4104)
          \<or> (le16 rh 0 = 2 \<and> le16 rh 2 \<noteq> 4) \<or> (le16 rh 0 \<noteq> 1 \<and> le16 rh 0 \<noteq> 2)"
      | (data) "le16 rh 0 = 1" "le16 rh 2 = 4104" "?pos + 4104 \<le> used"
      | (commit) "le16 rh 0 = 2" "le16 rh 2 = 4" 
      by fastforce
    then show ?thesis
    proof cases
      case brk
      have ci: "collect_iter img used 64 s = s\<lparr>c_break := True\<rparr>"
        using brk by (auto simp: collect_iter_def Let_def r1 nw)
      have sd: "spec_decode img used ?pos = []"
        using brk by (subst spec_decode.simps) (auto simp: r1)
      have "\<not> collect_cond used (s\<lparr>c_break := True\<rparr>)" by (simp add: collect_cond_def)
      from collect_stop [OF this] collect_go [OF c] ci
      have "while_option (collect_cond used) (collect_iter img used 64) s = Some (s\<lparr>c_break := True\<rparr>)"
        by simp
      then show ?thesis using sd nd by (simp add:)
    next
      case data
      define bno where "bno = take 4 (drop (journal_base_off + ?pos + 4) img)"
      define im where "im = take 4096 (drop (journal_base_off + ?pos + 4 + 4) img)"
      have r2: "pread_exact img 4 (journal_base_off + ?pos + 4) = Some bno"
        unfolding bno_def using l data by (intro pread_ok) (simp add: journal_base_off_def)
      have r3: "pread_exact img 4096 (journal_base_off + ?pos + 4 + 4) = Some im"
        unfolding im_def using l data by (intro pread_ok) (simp add: journal_base_off_def)
      have r3': "pread_exact img 4096 (journal_base_off + ?pos + 8) = Some im"
        using r3 by (simp add: add.assoc)
      note r2s = r2 [simplified] and r3s = r3 [simplified]
      have nw4104: "(?pos + 4104) mod U32 = ?pos + 4104" using p u by simp
      have small: "length (c_pending s) < 32" using cnt data p u by simp
      define s' where "s' = s\<lparr>c_pending := c_pending s @ [(le32 bno 0, im)], c_pos := ?pos + 4104\<rparr>"
      have ci: "collect_iter img used 64 s = s'"
        using data small
        by (simp add: collect_iter_def Let_def r1 r2s r3s nw4104 s'_def)
      have sd: "spec_decode img used ?pos = DATA (le32 bno 0) im # spec_decode img used (?pos + 4104)"
        using data True by (subst spec_decode.simps) (simp add: r1 r2 r3')
      have inv': "collect_inv used s'"
        using inv data cnt by (simp add: collect_inv_def s'_def)
      have "used - c_pos s' < used - c_pos s" using data by (simp add: s'_def)
      from less.hyps [OF this inv'] collect_go [OF c] ci sd
      show ?thesis by (simp add: s'_def)
    next
      case commit
      have le: "length (c_latest s) + length (c_pending s) \<le> 64" using cnt p u by simp
      note cp = commit_pending_ok [OF le]
      define s' where "s' = s\<lparr>c_latest := commit_pending (c_latest s) 64 (c_pending s),
                c_pending := [], c_pos := ?pos + 4\<rparr>"
      have nw4: "(?pos + 4) mod U32 = ?pos + 4" using p u by simp
      have ci: "collect_iter img used 64 s = s'"
        using commit True
        by (simp add: collect_iter_def Let_def r1 nw4 s'_def)
      have sd: "spec_decode img used ?pos = COMMIT # spec_decode img used (?pos + 4)"
        using commit True by (subst spec_decode.simps) (simp add: r1)
      have inv': "collect_inv used s'"
        using inv True cnt cp by (simp add: collect_inv_def s'_def)
      have "used - c_pos s' < used - c_pos s" using True by (simp add: s'_def)
      from less.hyps [OF this inv'] collect_go [OF c] ci sd cp
      show ?thesis by (simp add: s'_def)
    qed
  qed
qed

lemma map_of_rev_last_image: "map_of (rev t) b = last_image t b"
proof (induction t rule: rev_induct)
  case Nil
  show ?case by (simp add: last_image_def)
next
  case (snoc e t)
  then show ?case by (cases e) (auto simp: last_image_def Let_def)
qed

lemma spec_overlay_snoc:
  "spec_overlay (txns @ [t]) b =
     (case last_image t b of Some im \<Rightarrow> Some im | None \<Rightarrow> spec_overlay txns b)"
  by (auto simp: spec_overlay_def Let_def split: option.splits)

lemma fold_overlay:
  "fold (\<lambda>t m. m ++ map_of (rev t)) txns m b =
     (case spec_overlay txns b of Some im \<Rightarrow> Some im | None \<Rightarrow> m b)"
proof (induction txns rule: rev_induct)
  case Nil
  show ?case by (simp add: spec_overlay_def)
next
  case (snoc t txns)
  then show ?case
    by (simp add: spec_overlay_snoc map_add_def map_of_rev_last_image split: option.splits)
qed

lemma run_overlay_txns:
  "run_overlay rs pend m = fold (\<lambda>t m. m ++ map_of (rev t)) (spec_txns rs pend) m"
proof (induction rs arbitrary: pend m)
  case (Cons r rs)
  then show ?case by (cases r) simp_all
qed simp

lemma collect_init_inv: "8 \<le> used \<Longrightarrow> collect_inv used collect_init"
  by (simp add: collect_inv_def collect_init_def)

lemma collect_overlay:
  assumes "\<not> header_invalid jh" and "journal_base_off + nbytes_used jh \<le> length img"
  shows "\<exists>latest. journal_collect_latest_committed img jh 64 = Some (Inr latest)
     \<and> (\<forall>b. logged_image_find latest b
              = spec_overlay (spec_txns (spec_decode img (nbytes_used jh) 8) []) b)"
proof -
  have b: "8 \<le> nbytes_used jh" "nbytes_used jh \<le> 65536"
    using assms(1) by (simp_all add: header_invalid_def journal_capacity_bytes_def)
  have l: "4096 + nbytes_used jh \<le> length img" using assms(2) by (simp add: journal_base_off_def)
  from collect_run [OF b(2) l collect_init_inv [OF b(1)]]
  obtain t where t: "while_option (collect_cond (nbytes_used jh))
        (collect_iter img (nbytes_used jh) 64) collect_init = Some t"
    and d: "\<not> c_died t"
    and m: "map_of (c_latest t) = run_overlay (spec_decode img (nbytes_used jh) 8) [] Map.empty"
    by (auto simp: collect_init_def)
  have "journal_collect_latest_committed img jh 64 = Some (Inr (c_latest t))"
    using t d by (simp add: journal_collect_latest_committed_def)
  moreover have "logged_image_find (c_latest t) b
      = spec_overlay (spec_txns (spec_decode img (nbytes_used jh) 8) []) b" for b
    unfolding logged_image_find_map_of m run_overlay_txns fold_overlay
    by (simp split: option.splits)
  ultimately show ?thesis by blast
qed

lemma enc_recs_simps [simp]:
  "enc_recs [] = []" "enc_recs (r # rs) = enc_rec r @ enc_recs rs"
  "enc_recs (rs @ rs') = enc_recs rs @ enc_recs rs'"
  by (simp_all add: enc_recs_def)

lemma length_enc_rec: "wf_rec r \<Longrightarrow> length (enc_rec r) = (case r of DATA b im \<Rightarrow> 4104 | COMMIT \<Rightarrow> 4)"
  by (cases r) simp_all

lemma le16_append_right: "le16 (xs @ ys) (length xs + k) = le16 ys k"
  by (simp add: le16_def nth_append add.assoc)

lemma le16_enc16_pair:
  "le16 (enc16 a @ enc16 b) 0 = a mod 65536" "le16 (enc16 a @ enc16 b) 2 = b mod 65536"
  using le16_enc16 [of a "enc16 b"] le16_append_right [of "enc16 a" "enc16 b" 0]
    le16_enc16 [of b "[]"] by simp_all

lemma slice_prefix:
  assumes "take n xs = take n (e @ r)" "length e \<le> n"
  shows "take (length e) xs = e" "take (n - length e) (drop (length e) xs) = take (n - length e) r"
proof -
  have "take (length e) (take n xs) = take (length e) (take n (e @ r))" using assms(1) by simp
  then show "take (length e) xs = e" using assms(2) by (simp add: min_absorb1)
  have "drop (length e) (take n xs) = drop (length e) (take n (e @ r))" using assms(1) by simp
  then show "take (n - length e) (drop (length e) xs) = take (n - length e) r"
    using assms(2) by (simp add: drop_take)
qed

lemma decode_fit:
  assumes l: "4096 + used \<le> length img"
  shows "\<forall>r \<in> set rs. wf_rec r \<Longrightarrow> pos \<le> used \<Longrightarrow>
     take (used - pos) (drop (4096 + pos) img) = take (used - pos) (enc_recs rs) \<Longrightarrow>
     spec_decode img used pos = fit (used - pos) rs"
proof (induction rs arbitrary: pos)
  case Nil
  have "take (used - pos) (drop (4096 + pos) img) = []" using Nil.prems(3) by simp
  then have "used - pos = 0 \<or> length img \<le> 4096 + pos" by (simp add: take_eq_Nil)
  then have "used = pos" using l Nil.prems(2) by auto
  then show ?case by (subst spec_decode.simps) simp
next
  case (Cons r rs)
  let ?n = "used - pos"
  let ?xs = "drop (4096 + pos) img"
  have wf: "wf_rec r" using Cons.prems(1) by simp
  have e4: "4 \<le> length (enc_rec r)" using length_enc_rec [OF wf] by (cases r) simp_all
  show ?case
  proof (cases "pos + 4 \<le> used")
    case False
    then have "spec_decode img used pos = []" by (subst spec_decode.simps) simp
    moreover have "fit ?n (r # rs) = []" using False e4 by simp
    ultimately show ?thesis by simp
  next
    case True
    have r1: "pread_exact img 4 (journal_base_off + pos) = Some (take 4 ?xs)"
      using l True by (simp add: pread_exact_def journal_base_off_def)
    have h: "take ?n ?xs = take ?n (enc_rec r @ enc_recs rs)" using Cons.prems(3) by simp
    have "take 4 (take ?n ?xs) = take 4 (take ?n (enc_rec r @ enc_recs rs))" using h by simp
    then have rh: "take 4 ?xs = take 4 (enc_rec r)"
      using True e4 by (simp add: min_absorb1)
    show ?thesis
    proof (cases r)
      case COMMIT
      have rh': "take 4 ?xs = enc16 2 @ enc16 4" using rh COMMIT by simp
      have le: "length (enc_rec r) \<le> ?n" using COMMIT True by simp
      from slice_prefix(2) [OF h le]
      have "take (used - (pos + 4)) (drop (4096 + (pos + 4)) img)
          = take (used - (pos + 4)) (enc_recs rs)"
        using COMMIT by (simp add: add.commute add.left_commute)
      from Cons.IH [OF _ _ this] Cons.prems(1) True
      have ih: "spec_decode img used (pos + 4) = fit (used - (pos + 4)) rs" by simp
      have "spec_decode img used pos = COMMIT # spec_decode img used (pos + 4)"
        using True by (subst spec_decode.simps) (simp add: r1 rh' le16_enc16_pair)
      then show ?thesis using ih COMMIT True by simp
    next
      case (DATA b im)
      have wfd: "b < U32" "length im = 4096" using wf DATA by simp_all
      have rh': "take 4 ?xs = enc16 1 @ enc16 4104" using rh DATA by simp
      show ?thesis
      proof (cases "pos + 4104 \<le> used")
        case False
        have "spec_decode img used pos = []"
          using True False by (subst spec_decode.simps) (simp add: r1 rh' le16_enc16_pair)
        then show ?thesis using False DATA wfd by simp
      next
        case big: True
        have le: "length (enc_rec r) \<le> ?n" using DATA big wfd by simp
        from slice_prefix [OF h le]
        have whole: "take 4104 ?xs = enc_rec r"
          and rest: "take (used - (pos + 4104)) (drop (4096 + (pos + 4104)) img)
             = take (used - (pos + 4104)) (enc_recs rs)"
          using DATA wfd by (simp_all add: add.commute add.left_commute)
        have "take 4 (drop 4 (take 4104 ?xs)) = enc32 b" unfolding whole using DATA by simp
        then have b1: "take 4 (drop (journal_base_off + pos + 4) img) = enc32 b"
          by (simp add: drop_take journal_base_off_def add.commute add.left_commute)
        have "drop 8 (take 4104 ?xs) = im" unfolding whole using DATA by simp
        then have b2: "take 4096 (drop (journal_base_off + pos + 8) img) = im"
          by (simp add: drop_take journal_base_off_def add.commute add.left_commute)
        have r2: "pread_exact img 4 (journal_base_off + pos + 4) = Some (enc32 b)"
          using l big b1 by (simp add: pread_exact_def journal_base_off_def)
        have r3: "pread_exact img 4096 (journal_base_off + pos + 8) = Some im"
          using l big b2 by (simp add: pread_exact_def journal_base_off_def)
        from Cons.IH [OF _ _ rest] Cons.prems(1) big
        have ih: "spec_decode img used (pos + 4104) = fit (used - (pos + 4104)) rs" by simp
        have "le32 (enc32 b) 0 = b" using le32_enc32 [of b "[]"] wfd by simp
        then have "spec_decode img used pos = DATA b im # spec_decode img used (pos + 4104)"
          using True big
          by (subst spec_decode.simps) (simp add: r1 rh' le16_enc16_pair r2 r3)
        then show ?thesis using ih DATA big wfd by simp
      qed
    qed
  qed
qed

lemma jbytes_write_block:
  assumes "safe_entry p" "4096 + used \<le> length img" "used \<le> 65536"
  shows "jbytes used (write_block img (fst p) (snd p)) = jbytes used img"
  unfolding jbytes_def write_block_def
  using assms by (intro slice_pwrite_other) (auto simp: safe_entry_def)

lemma jbytes_replay_txn:
  "\<forall>p \<in> set t. safe_entry p \<Longrightarrow> 4096 + used \<le> length img \<Longrightarrow> used \<le> 65536 \<Longrightarrow>
     jbytes used (replay_txn t img) = jbytes used img"
proof (induction t arbitrary: img)
  case (Cons p t)
  have "4096 + used \<le> length (write_block img (fst p) (snd p))"
    using Cons.prems(2) length_write_block_ge [of img "fst p" "snd p"] by simp
  from Cons.IH [OF _ this Cons.prems(3)] Cons.prems jbytes_write_block [of p used img]
  show ?case by (simp add: replay_txn_def)
qed (simp add: replay_txn_def)

lemma pread_jbytes:
  assumes "jbytes used a = jbytes used b" "4096 + used \<le> length a" "4096 + used \<le> length b"
    "4096 \<le> off" "off + n \<le> 4096 + used"
  shows "pread_exact a n off = pread_exact b n off"
proof -
  have "take n (drop off x) = take n (drop (off - 4096) (jbytes used x))"
    if "4096 + used \<le> length x" for x :: image
    using that assms(4,5) by (simp add: jbytes_def drop_take min_absorb1)
  then show ?thesis using assms by (simp add: pread_exact_def)
qed

lemma install_stop:
  "\<not> install_cond used s \<Longrightarrow> while_option (install_cond used) (install_iter used) s = Some s"
  by (subst while_option_unfold) simp

lemma install_go:
  "install_cond used s \<Longrightarrow>
     while_option (install_cond used) (install_iter used) s
       = while_option (install_cond used) (install_iter used) (install_iter used s)"
  by (subst while_option_unfold) simp

lemma pread_length: "pread_exact img n off = Some bs \<Longrightarrow> length bs = n"
  by (auto simp: pread_exact_def split: if_splits)

lemma install_run:
  assumes u: "used \<le> 65536" and l0: "4096 + used \<le> length img0"
  shows "install_ok used s \<Longrightarrow> \<not> i_break s \<Longrightarrow> jbytes used (i_img s) = jbytes used img0 \<Longrightarrow>
     \<forall>t \<in> set (spec_txns (spec_decode img0 used (i_pos s)) (i_pending s)).
        \<forall>p \<in> set t. safe_entry p \<Longrightarrow>
     \<exists>t. while_option (install_cond used) (install_iter used) s = Some t
        \<and> i_exit t = None
        \<and> i_commits t = i_commits s + length (spec_txns (spec_decode img0 used (i_pos s)) (i_pending s))
        \<and> i_img t = replay (spec_txns (spec_decode img0 used (i_pos s)) (i_pending s)) (i_img s)"
proof (induction "used - i_pos s" arbitrary: s rule: less_induct)
  case less
  note ok = less.prems(1) and nb = less.prems(2) and jr = less.prems(3)
    and st = less.prems(4)
  let ?pos = "i_pos s"
  have p: "?pos \<le> used" and ne: "i_exit s = None" and l: "4096 + used \<le> length (i_img s)"
    and cnt: "8 + 4104 * length (i_pending s) \<le> ?pos"
    using ok by (simp_all add: install_ok_def install_inv_def)
  show ?case
  proof (cases "?pos + 4 \<le> used")
    case False
    then have "\<not> install_cond used s" by (simp add: install_cond_def)
    from install_stop [OF this]
    have "while_option (install_cond used) (install_iter used) s = Some s" .
    moreover have "spec_decode img0 used ?pos = []"
      using False by (subst spec_decode.simps) simp
    ultimately show ?thesis using ne by (simp add: replay_def)
  next
    case True
    then have c: "install_cond used s" using nb ne by (simp add: install_cond_def)
    obtain rh where r0: "pread_exact img0 4 (journal_base_off + ?pos) = Some rh"
      using l0 True u by (simp add: pread_exact_def journal_base_off_def)
    have r1: "pread_exact (i_img s) 4 (journal_base_off + ?pos) = Some rh"
      using pread_jbytes [OF jr l l0, of "journal_base_off + ?pos" 4] r0 True u
      by (simp add: journal_base_off_def)
    consider (brk) "le16 rh 2 < 4 \<or> ?pos + le16 rh 2 > used \<or> (le16 rh 0 = 1 \<and> le16 rh 2 \<noteq> 4104)
          \<or> (le16 rh 0 = 2 \<and> le16 rh 2 \<noteq> 4) \<or> (le16 rh 0 \<noteq> 1 \<and> le16 rh 0 \<noteq> 2)"
      | (data) "le16 rh 0 = 1" "le16 rh 2 = 4104" "?pos + 4104 \<le> used"
      | (commit) "le16 rh 0 = 2" "le16 rh 2 = 4"
      by fastforce
    then show ?thesis
    proof cases
      case brk
      note nw = pos_add_no_wrap [OF p u, of rh]
      have ci: "install_iter used s = s\<lparr>i_break := True\<rparr>"
        using brk by (auto simp: install_iter_def Let_def r1 nw)
      have sd: "spec_decode img0 used ?pos = []"
        using brk by (subst spec_decode.simps) (auto simp: r0)
      have "\<not> install_cond used (s\<lparr>i_break := True\<rparr>)" by (simp add: install_cond_def)
      from install_stop [OF this] install_go [OF c] ci
      have "while_option (install_cond used) (install_iter used) s = Some (s\<lparr>i_break := True\<rparr>)"
        by simp
      then show ?thesis using sd ne by (simp add: replay_def)
    next
      case data
      obtain bno where q2: "pread_exact img0 4 (journal_base_off + ?pos + 4) = Some bno"
        using l0 data u by (simp add: pread_exact_def journal_base_off_def)
      obtain im where q3: "pread_exact img0 4096 (journal_base_off + ?pos + 4 + 4) = Some im"
        using l0 data u by (simp add: pread_exact_def journal_base_off_def)
      have r2: "pread_exact (i_img s) 4 (journal_base_off + ?pos + 4) = Some bno"
        using pread_jbytes [OF jr l l0, of "journal_base_off + ?pos + 4" 4] q2 data u
        by (simp add: journal_base_off_def)
      have r3: "pread_exact (i_img s) 4096 (journal_base_off + ?pos + 4 + 4) = Some im"
        using pread_jbytes [OF jr l l0, of "journal_base_off + ?pos + 4 + 4" 4096] q3 data u
        by (simp add: journal_base_off_def)
      have q3': "pread_exact img0 4096 (journal_base_off + ?pos + 8) = Some im"
        using q3 by (simp add: add.assoc)
      note r2s = r2 [simplified] and r3s = r3 [simplified]
      have nw4104: "(?pos + 4104) mod U32 = ?pos + 4104" using p u by simp
      have small: "length (i_pending s) < 64" using cnt data p u by simp
      define s' where "s' = s\<lparr>i_pending := i_pending s @ [(le32 bno 0, im)], i_pos := ?pos + 4104\<rparr>"
      have ci: "install_iter used s = s'"
        using data small
        by (simp add: install_iter_def Let_def r1 r2s r3s nw4104 s'_def)
      have sd: "spec_decode img0 used ?pos = DATA (le32 bno 0) im # spec_decode img0 used (?pos + 4104)"
        using data True by (subst spec_decode.simps) (simp add: r0 q2 q3')
      have ok': "install_ok used s'"
        using ok data cnt by (simp add: install_ok_def install_inv_def s'_def)
      have st': "\<forall>t \<in> set (spec_txns (spec_decode img0 used (i_pos s')) (i_pending s')).
          \<forall>p \<in> set t. safe_entry p"
        using st sd by (simp add: s'_def)
      have "used - i_pos s' < used - i_pos s" using data by (simp add: s'_def)
      from less.hyps [OF this ok' _ _ st'] nb jr install_go [OF c] ci sd
      show ?thesis by (simp add: s'_def)
    next
      case commit
      define s' where "s' = s\<lparr>i_img := fold (\<lambda>p im. write_block im (fst p) (snd p)) (i_pending s) (i_img s),
                i_pending := [], i_commits := i_commits s + 1, i_pos := ?pos + 4\<rparr>"
      have nw4: "(?pos + 4) mod U32 = ?pos + 4" using p u by simp
      have ci: "install_iter used s = s'"
        using commit True
        by (simp add: install_iter_def Let_def r1 nw4 s'_def)
      have sd: "spec_decode img0 used ?pos = COMMIT # spec_decode img0 used (?pos + 4)"
        using commit True by (subst spec_decode.simps) (simp add: r0)
      have im': "i_img s' = replay_txn (i_pending s) (i_img s)"
        by (simp add: s'_def replay_txn_def)
      have l': "4096 + used \<le> length (i_img s')"
        using l length_replay_ge [of "i_img s" "i_pending s"] by (simp add: s'_def)
      have ok': "install_ok used s'"
        using ok True l' by (simp add: install_ok_def install_inv_def s'_def)
      have sp: "\<forall>p \<in> set (i_pending s). safe_entry p" using st sd by simp
      have jr': "jbytes used (i_img s') = jbytes used img0"
        using jbytes_replay_txn [OF sp l u] jr im' by simp
      have st': "\<forall>t \<in> set (spec_txns (spec_decode img0 used (i_pos s')) (i_pending s')).
          \<forall>p \<in> set t. safe_entry p"
        using st sd by (simp add: s'_def)
      have "used - i_pos s' < used - i_pos s" using True by (simp add: s'_def)
      from less.hyps [OF this ok' _ jr' st'] nb install_go [OF c] ci sd im'
      show ?thesis by (simp add: s'_def replay_def)
    qed
  qed
qed

lemma length_jput:
  assumes "bytes \<noteq> []" "length hdr = 8"
  shows "length (jput img used bytes hdr) = max (length img) (max 4104 (4096 + used + length bytes))"
proof -
  have "hdr \<noteq> []" using assms(2) by auto
  then show ?thesis using assms by (auto simp: jput_def length_pwrite)
qed

lemma nth_jput:
  assumes "bytes \<noteq> []" "length hdr = 8" "8 \<le> used" "a < length (jput img used bytes hdr)"
  shows "jput img used bytes hdr ! a =
     (if 4096 \<le> a \<and> a < 4104 then hdr ! (a - 4096)
      else if 4096 + used \<le> a \<and> a < 4096 + used + length bytes then bytes ! (a - (4096 + used))
      else if a < length img then img ! a else 0)"
proof -
  have h: "hdr \<noteq> []" using assms(2) by auto
  have "a < length (pwrite_exact img bytes (4096 + used)) \<or> (4096 \<le> a \<and> a < 4104)"
    using assms h by (auto simp: jput_def length_pwrite)
  then show ?thesis using assms h
    by (auto simp: jput_def nth_pwrite length_pwrite)
qed

lemma jput_jput:
  assumes "8 \<le> used" "length h1 = 8" "length h2 = 8" "b1 \<noteq> []" "b2 \<noteq> []"
  shows "jput (jput img used b1 h1) (used + length b1) b2 h2 = jput img used (b1 @ b2) h2"
proof (rule nth_equalityI)
  show "length (jput (jput img used b1 h1) (used + length b1) b2 h2)
      = length (jput img used (b1 @ b2) h2)"
    using assms by (simp add: length_jput)
next
  fix a assume a: "a < length (jput (jput img used b1 h1) (used + length b1) b2 h2)"
  then have a2: "a < length (jput img used (b1 @ b2) h2)"
    using assms by (simp add: length_jput)
  have a1: "a < length (jput img used b1 h1) \<or>
      (4096 + used + length b1 \<le> a \<and> a < 4096 + used + length b1 + length b2) \<or> (4096 \<le> a \<and> a < 4104)"
    using a assms by (auto simp: length_jput)
  show "jput (jput img used b1 h1) (used + length b1) b2 h2 ! a = jput img used (b1 @ b2) h2 ! a"
    using assms a a1 a2
    by (auto simp: nth_jput [of b2 h2 "used + length b1"] nth_jput [of "b1 @ b2" h2 used]
        nth_jput [of b1 h1 used] nth_append length_jput)
      (simp_all add: add.assoc)
qed

lemma append_bytes_eq:
  assumes "nbytes_used jh + length src \<le> 65536"
  shows "journal_append_bytes img jh src =
     (Inr (jh\<lparr>nbytes_used := nbytes_used jh + length src\<rparr>),
      jput img (nbytes_used jh) src (enc32 (magic jh) @ enc32 (nbytes_used jh + length src)))"
  using assms
  by (simp add: journal_append_bytes_def Let_def journal_capacity_bytes_def jput_def
      journal_write_header_def journal_base_off_def)

lemma jthen_Inr [simp]: "jthen (Inr jh, img) f = f img jh"
  by (simp add: jthen_def)

lemma append_data_eq:
  assumes "nbytes_used jh + 4104 \<le> 65536" "8 \<le> nbytes_used jh" "length im = 4096"
  shows "journal_append_data img jh b im =
     (Inr (jh\<lparr>nbytes_used := nbytes_used jh + 4104\<rparr>),
      jput img (nbytes_used jh) (enc_rec (DATA b im))
        (enc32 (magic jh) @ enc32 (nbytes_used jh + 4104)))"
proof -
  have im: "im \<noteq> []" using assms(3) by auto
  show ?thesis
    unfolding journal_append_data_def
    using assms im
    by (simp add: append_bytes_eq jput_jput add.assoc)
      (simp add: jput_jput [of "nbytes_used jh" _ _ "enc16 1 @ enc16 4104", simplified]
         jput_jput [of "nbytes_used jh" _ _ "enc16 1 @ enc16 4104 @ enc32 b", simplified])
qed

lemma enc_rec_nonempty [simp]: "enc_rec r \<noteq> []"
  by (cases r) simp_all

lemma length_enc_data [simp]: "length (enc_rec (DATA b im)) = 8 + length im"
  by simp

lemma append_bytes_jput:
  assumes "8 \<le> u0" "bs \<noteq> []" "src \<noteq> []" "length h = 8" "nbytes_used jh = u0 + length bs"
    "u1 = u0 + length bs + length src" "u1 \<le> 65536"
  shows "journal_append_bytes (jput img u0 bs h) jh src =
     (Inr (jh\<lparr>nbytes_used := u1\<rparr>), jput img u0 (bs @ src) (enc32 (magic jh) @ enc32 u1))"
  using assms by (simp add: append_bytes_eq jput_jput)

lemma append_data_jput:
  assumes "8 \<le> u0" "bs \<noteq> []" "length h = 8" "nbytes_used jh = u0 + length bs"
    "u1 = u0 + length bs + 4104" "u1 \<le> 65536" "length im = 4096"
  shows "journal_append_data (jput img u0 bs h) jh b im =
     (Inr (jh\<lparr>nbytes_used := u1\<rparr>),
      jput img u0 (bs @ enc_rec (DATA b im)) (enc32 (magic jh) @ enc32 u1))"
proof -
  have im: "im \<noteq> []" using assms(7) by auto
  define ua where "ua = u0 + length bs + 4"
  define ub where "ub = u0 + length bs + 8"
  have 1: "journal_append_bytes (jput img u0 bs h) jh (enc16 1 @ enc16 4104) =
     (Inr (jh\<lparr>nbytes_used := ua\<rparr>),
      jput img u0 (bs @ enc16 1 @ enc16 4104) (enc32 (magic jh) @ enc32 ua))"
    using append_bytes_jput [OF assms(1,2) _ assms(3,4), of "enc16 1 @ enc16 4104" ua img]
      assms(5,6)
    by (simp add: ua_def)
  have 2: "journal_append_bytes (jput img u0 (bs @ enc16 1 @ enc16 4104) (enc32 (magic jh) @ enc32 ua))
       (jh\<lparr>nbytes_used := ua\<rparr>) (enc32 b) =
     (Inr (jh\<lparr>nbytes_used := ub\<rparr>),
      jput img u0 (bs @ enc16 1 @ enc16 4104 @ enc32 b) (enc32 (magic jh) @ enc32 ub))"
    using append_bytes_jput [OF assms(1), of "bs @ enc16 1 @ enc16 4104" "enc32 b"
        "enc32 (magic jh) @ enc32 ua" "jh\<lparr>nbytes_used := ua\<rparr>" ub img]
      assms(5,6)
    by (simp add: ua_def ub_def)
  have 3: "journal_append_bytes (jput img u0 (bs @ enc16 1 @ enc16 4104 @ enc32 b) (enc32 (magic jh) @ enc32 ub))
       (jh\<lparr>nbytes_used := ub\<rparr>) im =
     (Inr (jh\<lparr>nbytes_used := u1\<rparr>),
      jput img u0 (bs @ enc16 1 @ enc16 4104 @ enc32 b @ im) (enc32 (magic jh) @ enc32 u1))"
    using append_bytes_jput [OF assms(1), of "bs @ enc16 1 @ enc16 4104 @ enc32 b" im
        "enc32 (magic jh) @ enc32 ub" "jh\<lparr>nbytes_used := ub\<rparr>" u1 img]
      assms(5,6,7) im
    by (simp add: ub_def)
  show ?thesis
    unfolding journal_append_data_def using 1 2 3 by simp
qed

lemma create_log_eq:
  assumes wf: "view_wf v" and u: "8 \<le> nbytes_used jh"
    and u1: "u1 = nbytes_used jh + 4104 * length (txn_of idx v) + 4" and cap: "u1 \<le> 65536"
  shows "create_log img jh idx v =
     (Inr (jh\<lparr>nbytes_used := u1\<rparr>),
      jput img (nbytes_used jh) (enc_recs (txn_recs (txn_of idx v))) (enc32 (magic jh) @ enc32 u1))"
proof -
  let ?u = "nbytes_used jh"
  let ?m = "magic jh"
  let ?d1 = "enc_rec (DATA 17 (inode_bm v))"
  let ?d2 = "enc_rec (DATA 19 (itbl19 v))"
  let ?d3 = "enc_rec (DATA 20 (itbl20 v))"
  let ?d4 = "enc_rec (DATA (root_dir_block_no v) (root_dir_img v))"
  have len: "length (inode_bm v) = 4096" "length (itbl19 v) = 4096" "length (itbl20 v) = 4096"
    "length (root_dir_img v) = 4096"
    using wf by (simp_all add: view_wf_def)
  have n: "3 \<le> length (txn_of idx v)" by (simp add: txn_of_def)
  have s1: "journal_append_data img jh 17 (inode_bm v) =
      (Inr (jh\<lparr>nbytes_used := ?u + 4104\<rparr>), jput img ?u ?d1 (enc32 ?m @ enc32 (?u + 4104)))"
    using append_data_eq [of jh "inode_bm v" img 17] u u1 cap n len by simp
  have s2: "journal_append_data (jput img ?u ?d1 (enc32 ?m @ enc32 (?u + 4104)))
        (jh\<lparr>nbytes_used := ?u + 4104\<rparr>) 19 (itbl19 v) =
      (Inr (jh\<lparr>nbytes_used := ?u + 8208\<rparr>), jput img ?u (?d1 @ ?d2) (enc32 ?m @ enc32 (?u + 8208)))"
    using append_data_jput [of ?u ?d1 "enc32 ?m @ enc32 (?u + 4104)"
        "jh\<lparr>nbytes_used := ?u + 4104\<rparr>" "?u + 8208" "itbl19 v" img 19] u u1 cap n len
    by simp
  show ?thesis
  proof (cases "idx = 1")
    case True
    have s3: "journal_append_data (jput img ?u (?d1 @ ?d2) (enc32 ?m @ enc32 (?u + 8208)))
        (jh\<lparr>nbytes_used := ?u + 8208\<rparr>) 20 (itbl20 v) =
      (Inr (jh\<lparr>nbytes_used := ?u + 12312\<rparr>),
       jput img ?u (?d1 @ ?d2 @ ?d3) (enc32 ?m @ enc32 (?u + 12312)))"
      using append_data_jput [of ?u "?d1 @ ?d2" "enc32 ?m @ enc32 (?u + 8208)"
          "jh\<lparr>nbytes_used := ?u + 8208\<rparr>" "?u + 12312" "itbl20 v" img 20] u u1 cap len True
      by (simp add: txn_of_def)
    have s4: "journal_append_data (jput img ?u (?d1 @ ?d2 @ ?d3) (enc32 ?m @ enc32 (?u + 12312)))
        (jh\<lparr>nbytes_used := ?u + 12312\<rparr>) (root_dir_block_no v) (root_dir_img v) =
      (Inr (jh\<lparr>nbytes_used := ?u + 16416\<rparr>),
       jput img ?u (?d1 @ ?d2 @ ?d3 @ ?d4) (enc32 ?m @ enc32 (?u + 16416)))"
      using append_data_jput [of ?u "?d1 @ ?d2 @ ?d3" "enc32 ?m @ enc32 (?u + 12312)"
          "jh\<lparr>nbytes_used := ?u + 12312\<rparr>" "?u + 16416" "root_dir_img v" img
          "root_dir_block_no v"] u u1 cap len True
      by (simp add: txn_of_def)
    have s5: "journal_append_bytes (jput img ?u (?d1 @ ?d2 @ ?d3 @ ?d4) (enc32 ?m @ enc32 (?u + 16416)))
        (jh\<lparr>nbytes_used := ?u + 16416\<rparr>) (enc16 2 @ enc16 4) =
      (Inr (jh\<lparr>nbytes_used := u1\<rparr>),
       jput img ?u (?d1 @ ?d2 @ ?d3 @ ?d4 @ enc16 2 @ enc16 4) (enc32 ?m @ enc32 u1))"
      using append_bytes_jput [of ?u "?d1 @ ?d2 @ ?d3 @ ?d4" "enc16 2 @ enc16 4"
          "enc32 ?m @ enc32 (?u + 16416)" "jh\<lparr>nbytes_used := ?u + 16416\<rparr>" u1 img]
        u u1 cap len True
      by (simp add: txn_of_def)
    show ?thesis
      unfolding create_log_def journal_append_commit_def
      using True s1 s2 s3 s4 s5 by (simp add: txn_of_def txn_recs_def)
  next
    case False
    have s4: "journal_append_data (jput img ?u (?d1 @ ?d2) (enc32 ?m @ enc32 (?u + 8208)))
        (jh\<lparr>nbytes_used := ?u + 8208\<rparr>) (root_dir_block_no v) (root_dir_img v) =
      (Inr (jh\<lparr>nbytes_used := ?u + 12312\<rparr>),
       jput img ?u (?d1 @ ?d2 @ ?d4) (enc32 ?m @ enc32 (?u + 12312)))"
      using append_data_jput [of ?u "?d1 @ ?d2" "enc32 ?m @ enc32 (?u + 8208)"
          "jh\<lparr>nbytes_used := ?u + 8208\<rparr>" "?u + 12312" "root_dir_img v" img
          "root_dir_block_no v"] u u1 cap len False
      by (simp add: txn_of_def)
    have s5: "journal_append_bytes (jput img ?u (?d1 @ ?d2 @ ?d4) (enc32 ?m @ enc32 (?u + 12312)))
        (jh\<lparr>nbytes_used := ?u + 12312\<rparr>) (enc16 2 @ enc16 4) =
      (Inr (jh\<lparr>nbytes_used := u1\<rparr>),
       jput img ?u (?d1 @ ?d2 @ ?d4 @ enc16 2 @ enc16 4) (enc32 ?m @ enc32 u1))"
      using append_bytes_jput [of ?u "?d1 @ ?d2 @ ?d4" "enc16 2 @ enc16 4"
          "enc32 ?m @ enc32 (?u + 12312)" "jh\<lparr>nbytes_used := ?u + 12312\<rparr>" u1 img]
        u u1 cap len False
      by (simp add: txn_of_def)
    show ?thesis
      unfolding create_log_def journal_append_commit_def
      using False s1 s2 s4 s5 by (simp add: txn_of_def txn_recs_def)
  qed
qed

lemma upsert_find_wf:
  "upsert_find arr b im = Some arr' \<Longrightarrow> \<forall>p \<in> set arr. entry_wf p \<Longrightarrow> length im = 4096 \<Longrightarrow>
     \<forall>p \<in> set arr'. entry_wf p"
proof (induction arr arbitrary: arr')
  case Nil
  then show ?case by simp
next
  case (Cons e arr)
  show ?case
  proof (cases "fst e = b")
    case True
    then have "arr' = (fst e, im) # arr" using Cons.prems(1) by simp
    then show ?thesis using Cons.prems(2,3) by (simp add: entry_wf_def)
  next
    case False
    then obtain r where r: "upsert_find arr b im = Some r" and a: "arr' = e # r"
      using Cons.prems(1) by auto
    from Cons.IH [OF r] Cons.prems(2,3) have "\<forall>p \<in> set r. entry_wf p" by simp
    then show ?thesis using a Cons.prems(2) by simp
  qed
qed

lemma upsert_wf:
  assumes "\<forall>p \<in> set arr. entry_wf p" "entry_wf (b, im)"
  shows "\<forall>p \<in> set (snd (logged_image_upsert arr m b im)). entry_wf p"
proof (cases "upsert_find arr b im")
  case None
  then show ?thesis using assms by (simp add: logged_image_upsert_def)
next
  case (Some arr')
  have "length im = 4096" using assms(2) by (simp add: entry_wf_def)
  from upsert_find_wf [OF Some assms(1) this] Some show ?thesis
    by (simp add: logged_image_upsert_def)
qed

lemma commit_pending_wf:
  "\<forall>p \<in> set latest. entry_wf p \<Longrightarrow> \<forall>p \<in> set pending. entry_wf p \<Longrightarrow>
     \<forall>p \<in> set (commit_pending latest m pending). entry_wf p"
proof (induction pending arbitrary: latest)
  case Nil
  then show ?case by simp
next
  case (Cons p pending)
  obtain ok l' where u: "logged_image_upsert latest m (fst p) (snd p) = (ok, l')"
    by (cases "logged_image_upsert latest m (fst p) (snd p)")
  have "entry_wf (fst p, snd p)" using Cons.prems(2) by simp
  from upsert_wf [OF Cons.prems(1) this, of m] u have w: "\<forall>q \<in> set l'. entry_wf q" by simp
  show ?case
  proof (cases ok)
    case True
    from Cons.IH [OF w] Cons.prems(2) u True show ?thesis by simp
  next
    case False
    then show ?thesis using u w by simp
  qed
qed

lemma collect_iter_wf:
  assumes "collect_wf s"
  shows "collect_wf (collect_iter img used m s)"
proof -
  have d: "collect_wf (s\<lparr>c_died := True\<rparr>)" "collect_wf (s\<lparr>c_break := True\<rparr>)"
    using assms by (simp_all add: collect_wf_def)
  have a: "collect_wf (s\<lparr>c_pending := c_pending s @ [(le32 bno 0, im)], c_pos := p\<rparr>)"
    if "pread_exact img 4096 off = Some im" for bno im p off
    using assms pread_length [OF that] le32_lt [of bno 0]
    by (simp add: collect_wf_def entry_wf_def)
  have c: "collect_wf (s\<lparr>c_latest := commit_pending (c_latest s) m (c_pending s),
       c_pending := [], c_pos := p\<rparr>)" for p
    using assms commit_pending_wf [of "c_latest s" "c_pending s" m]
    by (simp add: collect_wf_def)
  show ?thesis
  proof (cases "pread_exact img 4 (journal_base_off + c_pos s)")
    case None
    then show ?thesis using d by (simp add: collect_iter_def)
  next
    case (Some rh)
    show ?thesis
    proof (cases "pread_exact img 4 (journal_base_off + c_pos s + 4)")
      case None
      then show ?thesis using Some d c by (simp add: collect_iter_def Let_def)
    next
      case bno: (Some bno)
      show ?thesis
      proof (cases "pread_exact img 4096 (journal_base_off + c_pos s + 4 + 4)")
        case None
        then show ?thesis using Some bno d c by (simp add: collect_iter_def Let_def)
      next
        case im: (Some im)
        show ?thesis using Some bno im d c a [OF im]
          by (simp add: collect_iter_def Let_def)
      qed
    qed
  qed
qed

lemma collect_latest_wf:
  assumes "journal_collect_latest_committed img jh m = Some (Inr latest)"
  shows "\<forall>p \<in> set latest. entry_wf p"
proof -
  obtain t where t: "while_option (collect_cond (nbytes_used jh))
        (collect_iter img (nbytes_used jh) m) collect_init = Some t" and lt: "latest = c_latest t"
    using assms by (auto simp: journal_collect_latest_committed_def split: option.splits if_splits)
  have i: "collect_wf collect_init" by (simp add: collect_wf_def collect_init_def)
  have "collect_wf t"
    by (rule while_option_rule [where P = collect_wf, OF _ t i]) (rule collect_iter_wf)
  then show ?thesis unfolding lt collect_wf_def by blast
qed


lemma overlaid_cases: "overlaid latest b buf = buf \<or> (\<exists>im. logged_image_find latest b = Some im \<and> overlaid latest b buf = im)"
  by (auto simp: overlaid_def split: option.splits)

lemma logged_image_find_wf:
  "logged_image_find latest b = Some im \<Longrightarrow> \<forall>p \<in> set latest. entry_wf p \<Longrightarrow> length im = 4096"
proof (induction latest)
  case (Cons e latest)
  then show ?case by (cases "fst e = b") (simp_all add: entry_wf_def)
qed simp

lemma overlaid_length:
  assumes "\<forall>p \<in> set latest. entry_wf p" "length buf = 4096"
  shows "length (overlaid latest b buf) = 4096"
  using overlaid_cases [of latest b buf] logged_image_find_wf [OF _ assms(1)] assms(2) by auto

lemma read_block_length: "read_block img b = Some buf \<Longrightarrow> length buf = 4096"
  unfolding read_block_def by (rule pread_length)

lemma create_read_live_Inr:
  assumes "create_read_live img = Inr v"
  shows "read_block img 17 = Some (inode_bm v)" "read_block img 19 = Some (itbl19 v)"
    "read_block img 20 = Some (itbl20 v)" "le16 (itbl19 v) 0 = 2"
    "root_dir_block_no v = le32 (itbl19 v) 8" "root_dir_block_no v \<noteq> 0"
    "read_block img (root_dir_block_no v) = Some (root_dir_img v)"
  using assms
  by (auto simp: create_read_live_def split: option.splits if_splits)

lemma create_read_live_wf:
  assumes "create_read_live img = Inr v"
  shows "view_wf v"
  using create_read_live_Inr [OF assms] le32_lt [of "itbl19 v" 8]
  by (simp add: view_wf_def read_block_length)

lemma create_overlay_wf:
  assumes "create_overlay img jh v0 = Some (Inr v)" "view_wf v0"
  shows "view_wf v"
proof (cases "nbytes_used jh > 8")
  case False
  then show ?thesis using assms by (simp add: create_overlay_def)
next
  case True
  then obtain latest where c: "journal_collect_latest_committed img jh 64 = Some (Inr latest)"
    using assms(1) by (auto simp: create_overlay_def split: option.splits sum.splits)
  note w = collect_latest_wf [OF c]
  let ?t19 = "overlaid latest 19 (itbl19 v0)"
  obtain dir where d: "read_block img (le32 ?t19 8) = Some dir"
    and v: "v = \<lparr>inode_bm = overlaid latest 17 (inode_bm v0), itbl19 = ?t19,
                itbl20 = overlaid latest 20 (itbl20 v0), root_dir_block_no = le32 ?t19 8,
                root_dir_img = overlaid latest (le32 ?t19 8) dir\<rparr>"
    using assms(1) True c
    by (auto simp: create_overlay_def Let_def split: option.splits if_splits)
  have l0: "length (inode_bm v0) = 4096" "length (itbl19 v0) = 4096" "length (itbl20 v0) = 4096"
    using assms(2) by (simp_all add: view_wf_def)
  show ?thesis
    unfolding v view_wf_def
    using overlaid_length [OF w] l0 read_block_length [OF d] le32_lt [of ?t19 8]
    by simp
qed

lemma length_blit: "off + length src \<le> length buf \<Longrightarrow> length (blit buf off src) = length buf"
  by (simp add: blit_def)

lemma length_new_inode [simp]: "length (new_inode_bytes now) = 128"
  by (simp add: new_inode_bytes_def)

lemma length_bitmap_set [simp]: "length (bitmap_set bm i) = length bm"
  by (simp add: bitmap_set_def)

text \<open>What a successful build returns, spelled out.\<close>

lemma create_build_Inr:
  assumes "create_build v jh name now = Inr (idx, v')"
  obtains i where "alloc_scan (inode_bm v) = Some i" "idx = i div 32" "i < 64" "1 \<le> i"
    and "le16 (if idx = 0 then itbl19 v else itbl20 v) (128 * (i mod 32)) = 0"
    and "\<not> dir_has_name (root_dir_img v) (max 2 (le32 (itbl19 v) 4 div 32)) name"
    and "max 2 (le32 (itbl19 v) 4 div 32) < 128"
    and "(nbytes_used jh + ((3 + (if idx = 1 then 1 else 0)) * 4104 + 4)) mod U32 \<le> 65536"
    and "inode_bm v' = bitmap_set (inode_bm v) i"
    and "itbl20 v' = (if idx = 0 then itbl20 v else blit (itbl20 v) (128 * (i mod 32)) (new_inode_bytes now))"
    and "itbl19 v' =
       (let t19a = (if idx = 0 then blit (itbl19 v) (128 * (i mod 32)) (new_inode_bytes now) else itbl19 v)
        in blit (blit t19a 4 (enc32 ((le32 t19a 4 + 32) mod U32))) 44 (enc32 now))"
    and "root_dir_block_no v' = root_dir_block_no v"
    and "root_dir_img v' =
       (let u = max 2 (le32 (itbl19 v) 4 div 32)
        in blit (blit (blit (root_dir_img v) (32 * u) (enc32 i)) (32 * u + 4) (replicate 28 0))
             (32 * u + 4) (take 27 name @ replicate (27 - length (take 27 name)) 0))"
proof -
  obtain i where i: "alloc_scan (inode_bm v) = Some i"
    using assms by (cases "alloc_scan (inode_bm v)") (auto simp: create_build_def)
  then have i64: "i < 64" "1 \<le> i" by (simp_all add: alloc_scan_Some_iff)
  then have d: "i div 32 < 2" by simp
  have m: "(if le32 (itbl19 v) 4 div 32 < 2 then 2 else le32 (itbl19 v) 4 div 32)
      = max 2 (le32 (itbl19 v) 4 div 32)" by simp
  have j: "journal_capacity_bytes = 65536" by (simp add: journal_capacity_bytes_def)
  show ?thesis
    apply (rule that [of i])
    using assms i i64 d
    unfolding create_build_def Let_def m j
    by (auto split: if_splits simp: not_less)
qed

lemma create_build_wf:
  assumes b: "create_build v jh name now = Inr (idx, v')" and wf: "view_wf v"
    and u: "nbytes_used jh \<le> 65536"
  shows "view_wf v'" "idx < 2"
    "nbytes_used jh + 4104 * length (txn_of idx v') + 4 \<le> 65536"
proof -
  from b obtain i where i: "i < 64" "idx = i div 32"
    and cap: "(nbytes_used jh + ((3 + (if idx = 1 then 1 else 0)) * 4104 + 4)) mod U32 \<le> 65536"
    and m: "max 2 (le32 (itbl19 v) 4 div 32) < 128"
    and bm: "inode_bm v' = bitmap_set (inode_bm v) i"
    and t20: "itbl20 v' = (if idx = 0 then itbl20 v else blit (itbl20 v) (128 * (i mod 32)) (new_inode_bytes now))"
    and t19: "itbl19 v' =
       (let t19a = (if idx = 0 then blit (itbl19 v) (128 * (i mod 32)) (new_inode_bytes now) else itbl19 v)
        in blit (blit t19a 4 (enc32 ((le32 t19a 4 + 32) mod U32))) 44 (enc32 now))"
    and rb: "root_dir_block_no v' = root_dir_block_no v"
    and dir: "root_dir_img v' =
       (let u = max 2 (le32 (itbl19 v) 4 div 32)
        in blit (blit (blit (root_dir_img v) (32 * u) (enc32 i)) (32 * u + 4) (replicate 28 0))
             (32 * u + 4) (take 27 name @ replicate (27 - length (take 27 name)) 0))"
    by (rule create_build_Inr)
  have l: "length (inode_bm v) = 4096" "length (itbl19 v) = 4096" "length (itbl20 v) = 4096"
    "length (root_dir_img v) = 4096" "root_dir_block_no v < U32"
    using wf by (simp_all add: view_wf_def)
  show idx: "idx < 2" using i by simp
  have o: "128 * (i mod 32) + 128 \<le> 4096"
  proof -
    have "i mod 32 < 32" by simp
    then show ?thesis by linarith
  qed
  have l20: "length (itbl20 v') = 4096"
    unfolding t20 using l o by (simp add: length_blit)
  have l19a: "length (if idx = 0 then blit (itbl19 v) (128 * (i mod 32)) (new_inode_bytes now) else itbl19 v) = 4096"
    using l o by (simp add: length_blit)
  have l19: "length (itbl19 v') = 4096"
    unfolding t19 Let_def using l19a by (simp add: length_blit)
  have du: "32 * max 2 (le32 (itbl19 v) 4 div 32) + 32 \<le> 4096" using m by linarith
  have ldir: "length (root_dir_img v') = 4096"
    unfolding dir Let_def using l du by (simp add: length_blit)
  show "view_wf v'"
    unfolding view_wf_def using bm l l19 l20 ldir rb by simp
  have n: "length (txn_of idx v') = 3 + (if idx = 1 then 1 else 0)" by (simp add: txn_of_def)
  have "nbytes_used jh + ((3 + (if idx = 1 then 1 else 0)) * 4104 + 4) < U32" using u by simp
  then have "nbytes_used jh + ((3 + (if idx = 1 then 1 else 0)) * 4104 + 4) \<le> 65536"
    using cap by simp
  then show "nbytes_used jh + 4104 * length (txn_of idx v') + 4 \<le> 65536"
    unfolding n by (simp add: mult.commute)
qed

subsection \<open>The header that create works with\<close>

lemma journal_read_header_Some:
  "journal_read_header img = Some jh \<Longrightarrow> 4104 \<le> length img \<and> magic jh < U32 \<and> nbytes_used jh < U32"
  using le32_lt
  by (auto simp: journal_read_header_def pread_exact_def journal_base_off_def
      split: if_splits)


lemma jput_length_inside:
  assumes "bytes \<noteq> []" "length hdr = 8" "4096 + used + length bytes \<le> length img" "8 \<le> used"
  shows "length (jput img used bytes hdr) = length img"
  using assms by (simp add: length_jput max_def)


lemma jput_new:
  assumes "bytes \<noteq> []" "length hdr = 8" "8 \<le> used"
  shows "take (length bytes) (drop (4096 + used) (jput img used bytes hdr)) = bytes"
proof (rule slice_eqI)
  show "4096 + used + length bytes \<le> length (jput img used bytes hdr)"
    using assms by (simp add: length_jput)
next
  fix i assume "i < length bytes"
  then show "jput img used bytes hdr ! (4096 + used + i) = bytes ! i"
    using assms by (subst nth_jput) (auto simp: length_jput)
qed simp

lemma jput_old:
  assumes "bytes \<noteq> []" "length hdr = 8" "8 \<le> used" "4096 + used \<le> length img"
  shows "take (used - 8) (drop 4104 (jput img used bytes hdr)) = take (used - 8) (drop 4104 img)"
proof (rule nth_equalityI)
  show "length (take (used - 8) (drop 4104 (jput img used bytes hdr)))
      = length (take (used - 8) (drop 4104 img))"
    using assms by (simp add: length_jput)
next
  fix i assume "i < length (take (used - 8) (drop 4104 (jput img used bytes hdr)))"
  then have i: "i < used - 8" by simp
  then have "4104 + i < length (jput img used bytes hdr)" using assms by (simp add: length_jput)
  from nth_jput [OF assms(1,2,3) this]
  have "jput img used bytes hdr ! (4104 + i) = img ! (4104 + i)"
    using i assms(3,4) by auto
  then show "take (used - 8) (drop 4104 (jput img used bytes hdr)) ! i
      = take (used - 8) (drop 4104 img) ! i"
    using i assms by (simp add: length_jput)
qed

lemma jput_header:
  assumes "bytes \<noteq> []" "8 \<le> used"
  shows "journal_read_header (jput img used bytes (enc32 m @ enc32 u1))
     = Some \<lparr>magic = m mod U32, nbytes_used = u1 mod U32\<rparr>"
proof -
  have "take (length (enc32 m @ enc32 u1)) (drop 4096 (jput img used bytes (enc32 m @ enc32 u1)))
      = enc32 m @ enc32 u1"
    unfolding jput_def by (rule slice_pwrite_same)
  then have "take 8 (drop 4096 (jput img used bytes (enc32 m @ enc32 u1))) = enc32 m @ enc32 u1"
    by simp
  moreover have "4104 \<le> length (jput img used bytes (enc32 m @ enc32 u1))"
    using assms by (simp add: length_jput)
  ultimately show ?thesis
    by (simp add: journal_read_header_def pread_exact_def journal_base_off_def le32_enc32_pair)
qed

lemma length_reset_journal: "length (reset_journal img) = max (length img) 69632"
  unfolding reset_journal_eq by (simp add: length_pwrite)




lemma txn_recs_nonempty [simp]: "enc_recs (txn_recs t) \<noteq> []"
  by (simp add: txn_recs_def)

lemma length_enc_txn:
  "\<forall>p \<in> set t. entry_wf p \<Longrightarrow> length (enc_recs (txn_recs t)) = 4104 * length t + 4"
  by (induction t) (simp_all add: txn_recs_def entry_wf_def)

lemma txn_of_wf: "view_wf v \<Longrightarrow> \<forall>p \<in> set (txn_of idx v). entry_wf p"
  by (simp add: txn_of_def view_wf_def entry_wf_def)




lemma install_replays:
  assumes h: "journal_read_header img = Some jh" and v: "\<not> header_invalid jh"
    and l: "journal_base_off + nbytes_used jh \<le> length img"
    and s: "\<forall>t \<in> set (spec_txns (spec_decode img (nbytes_used jh) 8) []).
        \<forall>p \<in> set t. safe_entry p"
  shows "cmd_install img =
     Some (Inr (length (spec_txns (spec_decode img (nbytes_used jh) 8) [])),
           reset_journal (replay (spec_txns (spec_decode img (nbytes_used jh) 8) []) img))"
proof -
  have f: "journal_fail_if_missing img = Inr jh"
    using h v by (simp add: journal_fail_if_missing_def)
  note b = valid_header_bounds [OF f]
  have i: "install_ok (nbytes_used jh) (install_init img)"
    using b l install_init_inv [of "nbytes_used jh" img]
    by (simp add: install_ok_def install_init_def journal_base_off_def)
  have l': "4096 + nbytes_used jh \<le> length img" using l by (simp add: journal_base_off_def)
  from install_run [where s = "install_init img" and ?img0.0 = img and used = "nbytes_used jh"]
    b s l' i
  obtain t where "while_option (install_cond (nbytes_used jh))
        (install_iter (nbytes_used jh)) (install_init img) = Some t"
    "i_exit t = None"
    "i_commits t = length (spec_txns (spec_decode img (nbytes_used jh) 8) [])"
    "i_img t = replay (spec_txns (spec_decode img (nbytes_used jh) 8) []) img"
    by (auto simp: install_init_def)
  then show ?thesis using f by (simp add: cmd_install_def reset_journal_def)
qed

lemma fit_append:
  "length (enc_recs rs) \<le> n \<Longrightarrow> fit n (rs @ rs') = rs @ fit (n - length (enc_recs rs)) rs'"
  by (induction rs arbitrary: n) auto

lemma fit_partial_txn:
  "n < length (enc_recs (txn_recs t)) \<Longrightarrow>
     \<exists>k. fit n (txn_recs t) = map (\<lambda>p. DATA (fst p) (snd p)) (take k t)"
proof (induction t arbitrary: n)
  case Nil
  then show ?case by (simp add: txn_recs_def)
next
  case (Cons p t)
  show ?case
  proof (cases "length (enc_rec (DATA (fst p) (snd p))) \<le> n")
    case False
    then have "fit n (txn_recs (p # t)) = map (\<lambda>p. DATA (fst p) (snd p)) (take 0 (p # t))"
      by (simp add: txn_recs_def)
    then show ?thesis by blast
  next
    case True
    then have "n - length (enc_rec (DATA (fst p) (snd p))) < length (enc_recs (txn_recs t))"
      using Cons.prems by (simp add: txn_recs_def)
    from Cons.IH [OF this] obtain k where
      "fit (n - length (enc_rec (DATA (fst p) (snd p)))) (txn_recs t)
         = map (\<lambda>p. DATA (fst p) (snd p)) (take k t)" by blast
    then have "fit n (txn_recs (p # t)) = map (\<lambda>p. DATA (fst p) (snd p)) (take (Suc k) (p # t))"
      using True by (simp add: txn_recs_def)
    then show ?thesis by blast
  qed
qed

lemma spec_txns_data:
  "spec_txns (map (\<lambda>p. DATA (fst p) (snd p)) t @ rs) cur = spec_txns rs (cur @ t)"
  by (induction t arbitrary: cur) simp_all

lemma spec_txns_recs_of: "spec_txns (recs_of txns @ rs) [] = txns @ spec_txns rs []"
proof (induction txns)
  case Nil
  show ?case by (simp add: recs_of_def)
next
  case (Cons t txns)
  have "recs_of (t # txns) @ rs
      = map (\<lambda>p. DATA (fst p) (snd p)) t @ (COMMIT # (recs_of txns @ rs))"
    by (simp add: recs_of_def txn_recs_def)
  then show ?case using Cons by (simp add: spec_txns_data)
qed

lemma spec_txns_open: "spec_txns (map (\<lambda>p. DATA (fst p) (snd p)) t) cur = []"
  using spec_txns_data [of t "[]" cur] by simp

lemma wf_txn_recs: "\<forall>p \<in> set t. entry_wf p \<Longrightarrow> \<forall>r \<in> set (txn_recs t). wf_rec r"
  by (auto simp: txn_recs_def entry_wf_def)

lemma wf_recs_of:
  "\<forall>t \<in> set txns. \<forall>p \<in> set t. entry_wf p \<Longrightarrow> \<forall>r \<in> set (recs_of txns). wf_rec r"
  using wf_txn_recs by (auto simp: recs_of_def)

text \<open>
  The records read from a journal whose bytes in use are a cut of the bytes of complete
  transactions followed by one more transaction, cut before the end of that one.
\<close>

lemma decode_torn:
  assumes v: "\<not> header_invalid jh" and l: "journal_base_off + nbytes_used jh \<le> length img"
    and wf: "\<forall>t \<in> set txns. \<forall>p \<in> set t. entry_wf p" "\<forall>p \<in> set t. entry_wf p"
    and lo: "8 + length (enc_recs (recs_of txns)) \<le> nbytes_used jh"
    and hi: "nbytes_used jh < 8 + length (enc_recs (recs_of txns)) + length (enc_recs (txn_recs t))"
    and bytes: "take (nbytes_used jh - 8) (drop 4104 img)
        = take (nbytes_used jh - 8) (enc_recs (recs_of txns @ txn_recs t))"
  shows "\<exists>k. spec_decode img (nbytes_used jh) 8
     = recs_of txns @ map (\<lambda>p. DATA (fst p) (snd p)) (take k t)"
proof -
  let ?u = "nbytes_used jh"
  have b: "8 \<le> ?u" "?u \<le> 65536"
    using v by (simp_all add: header_invalid_def journal_capacity_bytes_def)
  have l': "4096 + ?u \<le> length img" using l by (simp add: journal_base_off_def)
  have w: "\<forall>r \<in> set (recs_of txns @ txn_recs t). wf_rec r"
    using wf_recs_of [OF wf(1)] wf_txn_recs [OF wf(2)] by auto
  have d: "spec_decode img ?u 8 = fit (?u - 8) (recs_of txns @ txn_recs t)"
    using decode_fit [OF l' w b(1)] bytes by simp
  have "fit (?u - 8) (recs_of txns @ txn_recs t)
      = recs_of txns @ fit (?u - 8 - length (enc_recs (recs_of txns))) (txn_recs t)"
    using lo by (intro fit_append) simp
  moreover have lt: "?u - 8 - length (enc_recs (recs_of txns)) < length (enc_recs (txn_recs t))"
    using hi lo by simp
  obtain k where "fit (?u - 8 - length (enc_recs (recs_of txns))) (txn_recs t)
      = map (\<lambda>p. DATA (fst p) (snd p)) (take k t)"
    using fit_partial_txn [OF lt] by blast
  ultimately show ?thesis using d by auto
qed

lemma torn_invisible:
  assumes h: "journal_read_header img = Some jh" and v: "\<not> header_invalid jh"
    and l: "journal_base_off + nbytes_used jh \<le> length img"
    and wf: "\<forall>t \<in> set txns. \<forall>p \<in> set t. entry_wf p" "\<forall>p \<in> set t. entry_wf p"
    and safe: "\<forall>t \<in> set txns. \<forall>p \<in> set t. safe_entry p"
    and lo: "8 + length (enc_recs (recs_of txns)) \<le> nbytes_used jh"
    and hi: "nbytes_used jh < 8 + length (enc_recs (recs_of txns)) + length (enc_recs (txn_recs t))"
    and bytes: "take (nbytes_used jh - 8) (drop 4104 img)
        = take (nbytes_used jh - 8) (enc_recs (recs_of txns @ txn_recs t))"
  shows "(\<exists>latest. journal_collect_latest_committed img jh 64 = Some (Inr latest)
            \<and> (\<forall>b. logged_image_find latest b = spec_overlay txns b))
     \<and> cmd_install img = Some (Inr (length txns), reset_journal (replay txns img))"
proof -
  let ?u = "nbytes_used jh"
  let ?D = "\<lambda>p. DATA (fst p) (snd p)"
  obtain k where d: "spec_decode img ?u 8 = recs_of txns @ map ?D (take k t)"
    using decode_torn [OF v l wf lo hi bytes] by blast
  have tx: "spec_txns (spec_decode img ?u 8) [] = txns"
    unfolding d spec_txns_recs_of by (simp add: spec_txns_open)
  have s: "\<forall>t \<in> set (spec_txns (spec_decode img ?u 8) []). \<forall>p \<in> set t. safe_entry p"
    unfolding tx by (rule safe)
  show ?thesis
    using collect_overlay [OF v l] install_replays [OF h v l s] unfolding tx by simp
qed

lemma demo_wf:
  "\<forall>t \<in> set [demo_t1, demo_t2]. \<forall>p \<in> set t. entry_wf p" "\<forall>p \<in> set demo_t3. entry_wf p"
  "\<forall>t \<in> set [demo_t1, demo_t2]. \<forall>p \<in> set t. safe_entry p"
  by (simp_all add: demo_t1_def demo_t2_def demo_t3_def entry_wf_def safe_entry_def)

lemma demo_lengths:
  "length (enc_recs (recs_of [demo_t1, demo_t2])) = 16424"
  "length (enc_recs (txn_recs demo_t3)) = 8212"
  by (simp_all add: recs_of_def txn_recs_def demo_t1_def demo_t2_def demo_t3_def)

lemma demo_bytes_length:
  "length (take 21528 (enc_recs (recs_of [demo_t1, demo_t2] @ txn_recs demo_t3))) = 21528"
  using demo_lengths by simp

lemma demo_torn_length: "length demo_torn = 90112"
proof -
  have "take 21528 (enc_recs (recs_of [demo_t1, demo_t2] @ txn_recs demo_t3)) \<noteq> []"
    using demo_bytes_length by auto
  then show ?thesis
    unfolding demo_torn_def using demo_bytes_length by (simp add: length_jput)
qed

lemma demo_torn_header: "journal_read_header demo_torn = Some demo_jh"
proof -
  have "take 21528 (enc_recs (recs_of [demo_t1, demo_t2] @ txn_recs demo_t3)) \<noteq> []"
    using demo_bytes_length by auto
  then show ?thesis
    unfolding demo_torn_def demo_jh_def by (subst jput_header) simp_all
qed

lemma demo_jh_valid: "\<not> header_invalid demo_jh"
  by (simp add: demo_jh_def header_invalid_def journal_capacity_bytes_def)

lemma demo_torn_long: "journal_base_off + nbytes_used demo_jh \<le> length demo_torn"
  by (simp add: demo_torn_length demo_jh_def journal_base_off_def)

lemma demo_torn_bytes:
  "take (nbytes_used demo_jh - 8) (drop 4104 demo_torn)
     = take (nbytes_used demo_jh - 8) (enc_recs (recs_of [demo_t1, demo_t2] @ txn_recs demo_t3))"
proof -
  let ?B = "take 21528 (enc_recs (recs_of [demo_t1, demo_t2] @ txn_recs demo_t3))"
  have ne: "?B \<noteq> []" using demo_bytes_length by auto
  have "take (length ?B) (drop (4096 + 8) demo_torn) = ?B"
    unfolding demo_torn_def by (rule jput_new [OF ne]) simp_all
  then show ?thesis unfolding demo_bytes_length by (simp add: demo_jh_def)
qed

lemma demo_torn_scan:
  "(\<exists>latest. journal_collect_latest_committed demo_torn demo_jh 64 = Some (Inr latest)
            \<and> (\<forall>b. logged_image_find latest b = spec_overlay [demo_t1, demo_t2] b))
     \<and> cmd_install demo_torn
         = Some (Inr (length [demo_t1, demo_t2]), reset_journal (replay [demo_t1, demo_t2] demo_torn))"
  apply (rule torn_invisible [OF demo_torn_header demo_jh_valid _ demo_wf(1,2,3) _ _ demo_torn_bytes])
  using demo_lengths by (simp_all add: demo_torn_length demo_jh_def journal_base_off_def)

lemma demo_overlay_values:
  "spec_overlay [demo_t1, demo_t2] 17 = Some (replicate 4096 3)"
  "spec_overlay [demo_t1, demo_t2] 19 = Some (replicate 4096 4)"
  "spec_overlay [demo_t1, demo_t2] 20 = None"
  "spec_overlay [demo_t1] 17 = Some (replicate 4096 2)"
  by (simp_all add: spec_overlay_def last_image_def demo_t1_def demo_t2_def)

subsection \<open>Journals on which the scans do not do what the specification expects\<close>

lemma demo_short_header:
  "journal_read_header demo_short = Some \<lparr>magic = JOURNAL_MAGIC, nbytes_used = 12\<rparr>"
  by (simp add: journal_read_header_def pread_exact_def journal_base_off_def demo_short_def
      le32_enc32_pair)

lemma length_overwrite_x [simp]: "length overwrite_x = 4096"
  by (simp add: overwrite_x_def)

lemma overwrite_x_nonempty [simp]: "overwrite_x \<noteq> []"
  by (simp add: overwrite_x_def)

lemma length_overwrite_img: "length overwrite_img = 90112"
  by (simp add: overwrite_img_def)

lemma overwrite_header: "journal_read_header overwrite_img = Some overwrite_jh"
  by (simp add: journal_read_header_def pread_exact_def journal_base_off_def overwrite_img_def
      le32_enc32_pair overwrite_jh_def)

lemma overwrite_bytes:
  "take (nbytes_used overwrite_jh - 8) (drop 4104 overwrite_img)
     = take (nbytes_used overwrite_jh - 8) (enc_recs (recs_of [overwrite_t1] @ txn_recs overwrite_t2))"
  by (simp add: overwrite_img_def overwrite_jh_def recs_of_def txn_recs_def overwrite_t1_def
      overwrite_t2_def)

lemma overwrite_reads1:
  "pread_exact overwrite_img 4 4104 = Some (enc16 1 @ enc16 4104)"
  "pread_exact overwrite_img 4 4108 = Some (enc32 3)"
  "pread_exact overwrite_img 4096 4112 = Some overwrite_x"
  "pread_exact overwrite_img 4 8208 = Some (enc16 2 @ enc16 4)"
  by (simp_all add: pread_exact_def overwrite_img_def)

lemma overwrite_mid_eq:
  "overwrite_mid =
     replicate 4096 0 @ enc32 JOURNAL_MAGIC @ enc32 8224
       @ enc_rec (DATA 3 overwrite_x) @ enc_rec COMMIT
       @ enc16 1 @ enc16 4104 @ enc32 17 @ replicate 4068 7
       @ overwrite_x @ replicate 73728 0"
  by (simp add: overwrite_mid_def write_block_def pwrite_exact_def Let_def overwrite_img_def)

lemma overwrite_reads2:
  "pread_exact overwrite_mid 4 8212 = Some (enc16 1 @ enc16 4104)"
  "pread_exact overwrite_mid 4 8216 = Some (enc32 17)"
  "pread_exact overwrite_mid 4096 8220 = Some (replicate 4068 7 @ replicate 28 0)"
  "pread_exact overwrite_mid 4 12316 = Some [2, 0, 4, 0]"
  by (simp_all add: pread_exact_def overwrite_mid_eq overwrite_x_def)

lemma le16_header_bytes:
  "le16 (enc16 1 @ enc16 4104) 0 = 1" "le16 (enc16 1 @ enc16 4104) 2 = 4104"
  "le16 (enc16 2 @ enc16 4) 0 = 2" "le16 (enc16 2 @ enc16 4) 2 = 4"
  "le16 [2, 0, 4, 0] 0 = 2" "le16 [2, 0, 4, 0] 2 = 4"
  "le32 (enc32 3) 0 = 3" "le32 (enc32 17) 0 = 17"
  "le16 (enc16 (Suc 0) @ enc16 4104) 0 = Suc 0" "le16 (enc16 (Suc 0) @ enc16 4104) 2 = 4104"
  by (simp_all add: le16_def le32_def enc16_def enc32_def)

lemma overwrite_iter1:
  "install_iter 8224 (install_init overwrite_img)
     = \<lparr>i_img = overwrite_img, i_pos = 4112, i_pending = [(3, overwrite_x)], i_commits = 0,
        i_break = False, i_exit = None\<rparr>"
  by (simp add: install_iter_def Let_def install_init_def journal_base_off_def overwrite_reads1
      le16_header_bytes)

lemma overwrite_iter2:
  "install_iter 8224 \<lparr>i_img = overwrite_img, i_pos = 4112, i_pending = [(3, overwrite_x)],
        i_commits = 0, i_break = False, i_exit = None\<rparr>
     = \<lparr>i_img = overwrite_mid, i_pos = 4116, i_pending = [], i_commits = 1,
        i_break = False, i_exit = None\<rparr>"
  by (simp add: install_iter_def Let_def journal_base_off_def overwrite_reads1 le16_header_bytes
      overwrite_mid_def)

lemma overwrite_iter3:
  "install_iter 8224 \<lparr>i_img = overwrite_mid, i_pos = 4116, i_pending = [], i_commits = 1,
        i_break = False, i_exit = None\<rparr>
     = \<lparr>i_img = overwrite_mid, i_pos = 8220,
        i_pending = [(17, replicate 4068 7 @ replicate 28 0)], i_commits = 1,
        i_break = False, i_exit = None\<rparr>"
  by (simp add: install_iter_def Let_def journal_base_off_def overwrite_reads2 le16_header_bytes)

lemma overwrite_iter4:
  "install_iter 8224 \<lparr>i_img = overwrite_mid, i_pos = 8220,
        i_pending = [(17, replicate 4068 7 @ replicate 28 0)], i_commits = 1,
        i_break = False, i_exit = None\<rparr>
     = \<lparr>i_img = write_block overwrite_mid 17 (replicate 4068 7 @ replicate 28 0), i_pos = 8224,
        i_pending = [], i_commits = 2, i_break = False, i_exit = None\<rparr>"
  by (simp add: install_iter_def Let_def journal_base_off_def overwrite_reads2 le16_header_bytes)

lemma overwrite_loop:
  "while_option (install_cond 8224) (install_iter 8224) (install_init overwrite_img)
     = Some \<lparr>i_img = write_block overwrite_mid 17 (replicate 4068 7 @ replicate 28 0),
        i_pos = 8224, i_pending = [], i_commits = 2, i_break = False, i_exit = None\<rparr>"
proof -
  have "while_option (install_cond 8224) (install_iter 8224) (install_init overwrite_img)
      = while_option (install_cond 8224) (install_iter 8224)
          \<lparr>i_img = overwrite_img, i_pos = 4112, i_pending = [(3, overwrite_x)], i_commits = 0,
            i_break = False, i_exit = None\<rparr>"
    by (subst install_go) (simp_all add: install_cond_def install_init_def
        overwrite_iter1 [unfolded install_init_def])
  also have "\<dots> = while_option (install_cond 8224) (install_iter 8224)
          \<lparr>i_img = overwrite_mid, i_pos = 4116, i_pending = [], i_commits = 1,
            i_break = False, i_exit = None\<rparr>"
    by (subst install_go) (simp_all only: overwrite_iter2, simp_all add: install_cond_def)
  also have "\<dots> = while_option (install_cond 8224) (install_iter 8224)
          \<lparr>i_img = overwrite_mid, i_pos = 8220,
            i_pending = [(17, replicate 4068 7 @ replicate 28 0)], i_commits = 1,
            i_break = False, i_exit = None\<rparr>"
    by (subst install_go) (simp_all only: overwrite_iter3, simp_all add: install_cond_def)
  also have "\<dots> = while_option (install_cond 8224) (install_iter 8224)
          \<lparr>i_img = write_block overwrite_mid 17 (replicate 4068 7 @ replicate 28 0),
            i_pos = 8224, i_pending = [], i_commits = 2, i_break = False, i_exit = None\<rparr>"
    by (subst install_go) (simp_all only: overwrite_iter4, simp_all add: install_cond_def)
  also have "\<dots> = Some \<lparr>i_img = write_block overwrite_mid 17 (replicate 4068 7 @ replicate 28 0),
            i_pos = 8224, i_pending = [], i_commits = 2, i_break = False, i_exit = None\<rparr>"
    by (rule install_stop) (simp add: install_cond_def)
  finally show ?thesis .
qed

lemma overwrite_valid: "\<not> header_invalid overwrite_jh"
  by (simp add: overwrite_jh_def header_invalid_def journal_capacity_bytes_def)

lemma overwrite_install:
  "cmd_install overwrite_img
     = Some (Inr 2, reset_journal
         (write_block overwrite_mid 17 (replicate 4068 7 @ replicate 28 0)))"
proof -
  have f: "journal_fail_if_missing overwrite_img = Inr overwrite_jh"
    using overwrite_header overwrite_valid by (simp add: journal_fail_if_missing_def)
  show ?thesis
    using f overwrite_loop
    by (simp add: cmd_install_def overwrite_jh_def reset_journal_def)
qed

lemma read_block_written:
  assumes "length im = 4096" "b * 4096 + 4096 \<le> length img"
  shows "read_block (write_block img b im) b = Some im"
proof -
  have "length (write_block img b im) = length img"
    unfolding write_block_def using assms by (intro length_pwrite_inside) simp
  then show ?thesis
    using assms slice_pwrite_same [of im "b * 4096" img]
    by (simp add: read_block_def write_block_def pread_exact_def)
qed

lemma overwrite_lengths:
  "8 + length (enc_recs (recs_of [overwrite_t1])) \<le> nbytes_used overwrite_jh"
  "nbytes_used overwrite_jh
     < 8 + length (enc_recs (recs_of [overwrite_t1])) + length (enc_recs (txn_recs overwrite_t2))"
  by (simp_all add: overwrite_jh_def recs_of_def txn_recs_def overwrite_t1_def overwrite_t2_def)

lemma cut_header: "journal_read_header cut_img = Some cut_jh"
  by (simp add: journal_read_header_def pread_exact_def journal_base_off_def cut_img_def
      le32_enc32_pair cut_jh_def)

lemma cut_valid: "\<not> header_invalid cut_jh"
  by (simp add: cut_jh_def header_invalid_def journal_capacity_bytes_def)

lemma cut_reads:
  "pread_exact cut_img 4 4104 = Some (enc16 1 @ enc16 4104)"
  "pread_exact cut_img 4 4108 = Some (enc32 17)"
  "pread_exact cut_img 4096 4112 = None"
  by (simp_all add: pread_exact_def cut_img_def)

subsection \<open>Create on a journal of committed transactions\<close>

lemma holdsD:
  assumes "journal_holds img jh txns"
  shows "69632 \<le> length img" "journal_read_header img = Some jh" "magic jh = JOURNAL_MAGIC"
    "nbytes_used jh = 8 + length (enc_recs (recs_of txns))" "nbytes_used jh \<le> 65536"
    "take (nbytes_used jh - 8) (drop 4104 img) = enc_recs (recs_of txns)"
    "\<forall>t \<in> set txns. \<forall>p \<in> set t. entry_wf p"
  using assms unfolding journal_holds_def by blast+

lemma holds_valid:
  assumes "journal_holds img jh txns"
  shows "\<not> header_invalid jh"
  using holdsD(3,4,5) [OF assms]
  by (simp add: header_invalid_def journal_capacity_bytes_def)

lemma holds_init:
  assumes "journal_holds img jh txns"
  shows "journal_init_if_needed img = (Inr jh, img)"
  using holds_valid [OF assms] holdsD(2) [OF assms]
  by (simp add: journal_init_if_needed_def)

lemma holds_reset: "journal_holds (reset_journal img) fresh_header []"
proof -
  have "take 0 (drop 4104 (reset_journal img)) = []" by simp
  then show ?thesis
    unfolding journal_holds_def
    using reset_journal_header [of img]
    by (simp add: length_reset_journal fresh_header_def recs_of_def)
qed

lemma fit_all: "length (enc_recs rs) \<le> n \<Longrightarrow> fit n rs = rs"
  using fit_append [of rs n "[]"] by simp

lemma holds_decode:
  assumes "journal_holds img jh txns"
  shows "spec_decode img (nbytes_used jh) 8 = recs_of txns"
    "spec_txns (spec_decode img (nbytes_used jh) 8) [] = txns"
proof -
  let ?u = "nbytes_used jh"
  note d = holdsD [OF assms]
  have l: "4096 + ?u \<le> length img" using d(1,5) by simp
  note u = d(4) and b = d(6) and wf = d(7)
  have "take (?u - 8) (enc_recs (recs_of txns)) = enc_recs (recs_of txns)"
    using u by simp
  then have "take (?u - 8) (drop (4096 + 8) img) = take (?u - 8) (enc_recs (recs_of txns))"
    using b by simp
  from decode_fit [OF l wf_recs_of [OF wf] _ this] u
  have "spec_decode img ?u 8 = fit (?u - 8) (recs_of txns)" by simp
  then show d: "spec_decode img ?u 8 = recs_of txns" using u by (simp add: fit_all)
  show "spec_txns (spec_decode img ?u 8) [] = txns"
    unfolding d using spec_txns_recs_of [of txns "[]"] by simp
qed

lemma holds_overlay:
  assumes "journal_holds img jh txns"
  shows "\<exists>latest. journal_collect_latest_committed img jh 64 = Some (Inr latest)
     \<and> (\<forall>b. logged_image_find latest b = spec_overlay txns b)"
proof -
  have "journal_base_off + nbytes_used jh \<le> length img"
    using holdsD(1,5) [OF assms] by (simp add: journal_base_off_def)
  from collect_overlay [OF holds_valid [OF assms] this] show ?thesis
    unfolding holds_decode(2) [OF assms] .
qed

lemma holds_install:
  assumes h: "journal_holds img jh txns" and s: "\<forall>t \<in> set txns. \<forall>p \<in> set t. safe_entry p"
  shows "cmd_install img = Some (Inr (length txns), reset_journal (replay txns img))"
proof -
  note d = holdsD [OF h]
  have sr: "\<forall>t \<in> set (spec_txns (spec_decode img (nbytes_used jh) 8) []).
      \<forall>p \<in> set t. safe_entry p"
    unfolding holds_decode(2) [OF h] by (rule s)
  have l: "journal_base_off + nbytes_used jh \<le> length img"
    using d(1,5) by (simp add: journal_base_off_def)
  from install_replays [OF d(2) holds_valid [OF h] l sr] show ?thesis
    unfolding holds_decode(2) [OF h] .
qed

lemma slice_append:
  assumes "take n xs = a" "take m (drop n xs) = b" "length a = n"
  shows "take (n + m) xs = a @ b"
  using assms by (metis take_add)

lemma recs_of_snoc: "recs_of (txns @ [t]) = recs_of txns @ txn_recs t"
  by (simp add: recs_of_def)

lemma holds_jput:
  assumes h: "journal_holds img jh txns" and wf: "\<forall>p \<in> set t. entry_wf p"
    and u': "u' = nbytes_used jh + 4104 * length t + 4" and cap: "u' \<le> 65536"
  shows "journal_holds (jput img (nbytes_used jh) (enc_recs (txn_recs t))
            (enc32 JOURNAL_MAGIC @ enc32 u'))
          (jh\<lparr>nbytes_used := u'\<rparr>) (txns @ [t])"
proof -
  let ?u = "nbytes_used jh"
  let ?bs = "enc_recs (txn_recs t)"
  let ?h = "enc32 JOURNAL_MAGIC @ enc32 u'"
  let ?img = "jput img ?u ?bs ?h"
  note d = holdsD [OF h]
  note a = d(1) d(3) d(4) d(6) d(7)
  have u8: "8 \<le> ?u" using a(3) by simp
  have lb: "length ?bs = 4104 * length t + 4" by (rule length_enc_txn [OF wf])
  have ne: "?bs \<noteq> []" by simp
  have lh: "length ?h = 8" by simp
  have len: "length ?img = length img"
    using jput_length_inside [OF ne lh _ u8, of img] lb u' cap a(1) by simp
  have hd: "journal_read_header ?img = Some (jh\<lparr>nbytes_used := u'\<rparr>)"
    unfolding jput_header [OF ne u8] using a(2) cap by simp
  have old: "take (?u - 8) (drop 4104 ?img) = enc_recs (recs_of txns)"
    using jput_old [OF ne lh u8, of img] a(1,4) u' cap by simp
  have new: "take (length ?bs) (drop (4096 + ?u) ?img) = ?bs"
    by (rule jput_new [OF ne lh u8])
  have "take (length ?bs) (drop (?u - 8) (drop 4104 ?img)) = ?bs"
    using new u8 by (simp add: add.commute)
  from slice_append [OF old this] a(3)
  have all: "take (?u - 8 + length ?bs) (drop 4104 ?img) = enc_recs (recs_of txns) @ ?bs"
    by simp
  have "u' - 8 = ?u - 8 + length ?bs" using u' lb u8 by simp
  then have bytes: "take (u' - 8) (drop 4104 ?img) = enc_recs (recs_of (txns @ [t]))"
    using all by (simp add: recs_of_snoc)
  have ln: "u' = 8 + length (enc_recs (recs_of (txns @ [t])))"
    using u' lb a(3) by (simp add: recs_of_snoc)
  show ?thesis
    unfolding journal_holds_def
    using len a(1,2,5) hd bytes ln cap wf by auto
qed

lemma read_block_eq:
  "read_block img b = Some buf \<longleftrightarrow> b * 4096 + 4096 \<le> length img \<and> buf = take 4096 (drop (b * 4096) img)"
  by (auto simp: read_block_def pread_exact_def)

lemma read_block_write_block:
  assumes "length im = 4096" "b' * 4096 + 4096 \<le> length img"
  shows "read_block (write_block img b im) b' = (if b' = b then Some im else read_block img b')"
proof (cases "b' = b")
  case True
  have "take (length im) (drop (b * 4096) (pwrite_exact img im (b * 4096))) = im"
    by (rule slice_pwrite_same)
  moreover have "b * 4096 + 4096 \<le> length (pwrite_exact img im (b * 4096))"
    using assms True length_pwrite_ge [of img im "b * 4096"] by simp
  ultimately show ?thesis using True assms(1)
    by (simp add: read_block_def write_block_def pread_exact_def)
next
  case False
  then have "b' < b \<or> b < b'" by auto
  then have "b' * 4096 + 4096 \<le> b * 4096 \<or> b * 4096 + length im \<le> b' * 4096"
    using assms(1) by auto
  from pread_pwrite_other [OF assms(2) this] False show ?thesis
    by (simp add: read_block_def write_block_def)
qed

lemma last_image_snoc:
  "last_image (t @ [p]) b = (if fst p = b then Some (snd p) else last_image t b)"
  by (simp add: last_image_def Let_def)

lemma replay_txn_snoc: "replay_txn (t @ [p]) img = write_block (replay_txn t img) (fst p) (snd p)"
  by (simp add: replay_txn_def)

lemma length_replay_txn_ge: "length img \<le> length (replay_txn t img)"
  unfolding replay_txn_def by (rule length_replay_ge)

lemma read_block_replay_txn:
  "\<forall>p \<in> set t. length (snd p) = 4096 \<Longrightarrow> b * 4096 + 4096 \<le> length img \<Longrightarrow>
     read_block (replay_txn t img) b
       = (case last_image t b of Some im \<Rightarrow> Some im | None \<Rightarrow> read_block img b)"
proof (induction t rule: rev_induct)
  case Nil
  show ?case by (simp add: replay_txn_def last_image_def)
next
  case (snoc p t)
  have l: "b * 4096 + 4096 \<le> length (replay_txn t img)"
    using snoc.prems(2) length_replay_txn_ge [of img t] by simp
  have lp: "length (snd p) = 4096" using snoc.prems(1) by simp
  show ?case
    unfolding replay_txn_snoc read_block_write_block [OF lp l] last_image_snoc
    using snoc by auto
qed

lemma length_replay_ge': "length img \<le> length (replay txns img)"
proof (induction txns arbitrary: img)
  case (Cons t txns)
  show ?case using Cons [of "replay_txn t img"] length_replay_txn_ge [of img t]
    by (simp add: replay_def)
qed (simp add: replay_def)

lemma replay_snoc: "replay (txns @ [t]) img = replay_txn t (replay txns img)"
  by (simp add: replay_def)

text \<open>
  Property 1 of section 8: after replay, a block reads as the overlay says, and as before
  where the overlay says nothing.
\<close>

lemma read_block_replay:
  "\<forall>t \<in> set txns. \<forall>p \<in> set t. length (snd p) = 4096 \<Longrightarrow> b * 4096 + 4096 \<le> length img \<Longrightarrow>
     read_block (replay txns img) b
       = (case spec_overlay txns b of Some im \<Rightarrow> Some im | None \<Rightarrow> read_block img b)"
proof (induction txns rule: rev_induct)
  case Nil
  show ?case by (simp add: replay_def spec_overlay_def)
next
  case (snoc t txns)
  have l: "b * 4096 + 4096 \<le> length (replay txns img)"
    using snoc.prems(2) length_replay_ge' [of img txns] by simp
  have w: "\<forall>p \<in> set t. length (snd p) = 4096" using snoc.prems(1) by simp
  show ?case
    unfolding replay_snoc read_block_replay_txn [OF w l] spec_overlay_snoc
    using snoc by (auto split: option.splits)
qed

lemma read_block_reset:
  assumes "17 \<le> b" "b * 4096 + 4096 \<le> length img"
  shows "read_block (reset_journal img) b = read_block img b"
  unfolding reset_journal_eq read_block_def
  using assms by (intro pread_pwrite_other) auto

lemma read_block_jput:
  assumes "17 \<le> b" "b * 4096 + 4096 \<le> length img" "length hdr = 8"
    "used + length bytes \<le> 65536"
  shows "read_block (jput img used bytes hdr) b = read_block img b"
proof -
  have 1: "pread_exact (pwrite_exact img bytes (4096 + used)) 4096 (b * 4096)
      = pread_exact img 4096 (b * 4096)"
    using assms by (intro pread_pwrite_other) auto
  have "b * 4096 + 4096 \<le> length (pwrite_exact img bytes (4096 + used))"
    using assms(2) length_pwrite_ge [of img bytes "4096 + used"] by simp
  then have "pread_exact (jput img used bytes hdr) 4096 (b * 4096)
      = pread_exact (pwrite_exact img bytes (4096 + used)) 4096 (b * 4096)"
    unfolding jput_def using assms by (intro pread_pwrite_other) auto
  then show ?thesis using 1 by (simp add: read_block_def)
qed

lemma overlaid_overlay_or:
  "\<forall>b. logged_image_find latest b = spec_overlay txns b \<Longrightarrow>
     overlaid latest b buf = overlay_or txns b buf"
  by (simp add: overlaid_def overlay_or_def)

lemma create_overlay_holds:
  assumes h: "journal_holds img jh txns" and n: "txns \<noteq> []"
    and t: "le16 (overlay_or txns 19 (itbl19 v0)) 0 = 2"
    and rb: "le32 (overlay_or txns 19 (itbl19 v0)) 8 = rb" "rb \<noteq> 0"
    and d: "read_block img rb = Some dir"
  shows "create_overlay img jh v0 =
     Some (Inr \<lparr>inode_bm = overlay_or txns 17 (inode_bm v0),
                itbl19 = overlay_or txns 19 (itbl19 v0),
                itbl20 = overlay_or txns 20 (itbl20 v0),
                root_dir_block_no = rb,
                root_dir_img = overlay_or txns rb dir\<rparr>)"
proof -
  obtain t0 ts where "txns = t0 # ts" using n by (cases txns) auto
  then have "0 < length (enc_recs (recs_of txns))" by (simp add: recs_of_def txn_recs_def)
  then have u: "nbytes_used jh > 8" using holdsD(4) [OF h] by simp
  from holds_overlay [OF h] obtain latest where
    c: "journal_collect_latest_committed img jh 64 = Some (Inr latest)"
    and f: "\<forall>b. logged_image_find latest b = spec_overlay txns b" by blast
  note ov = overlaid_overlay_or [OF f]
  show ?thesis
    unfolding create_overlay_def using u c t rb d by (simp add: ov Let_def)
qed

lemma create_step:
  assumes i: "journal_init_if_needed img = (Inr jh, img1)"
    and h: "journal_holds img1 jh txns"
    and name: "takeWhile (\<lambda>c. c \<noteq> 0) arg = name" "name \<noteq> []" "length name < 28"
    and r: "create_read_live img1 = Inr v0"
    and o: "create_overlay img1 jh v0 = Some (Inr v)"
    and b: "create_build v jh name now = Inr (idx, v')"
    and u': "u' = nbytes_used jh + 4104 * length (txn_of idx v') + 4"
    and img': "img' = jput img1 (nbytes_used jh) (enc_recs (txn_recs (txn_of idx v')))
         (enc32 JOURNAL_MAGIC @ enc32 u')"
  shows "cmd_create img arg now = Some (Inr (), img')"
    "journal_holds img' (jh\<lparr>nbytes_used := u'\<rparr>) (txns @ [txn_of idx v'])"
    "length img' = length img1"
    "\<And>k. 17 \<le> k \<Longrightarrow> k * 4096 + 4096 \<le> length img1 \<Longrightarrow> read_block img' k = read_block img1 k"
proof -
  note d = holdsD [OF h]
  have wf: "view_wf v" using create_overlay_wf [OF o create_read_live_wf [OF r]] .
  note bw = create_build_wf [OF b wf d(5)]
  have u8: "8 \<le> nbytes_used jh" using d(4) by simp
  have e: "create_log img1 jh idx v' = (Inr (jh\<lparr>nbytes_used := u'\<rparr>), img')"
    unfolding img' using create_log_eq [OF bw(1) u8 u'] bw(3) u' d(3) by simp
  show "cmd_create img arg now = Some (Inr (), img')"
    unfolding cmd_create_def Let_def using name i r o b e by simp
  show hh: "journal_holds img' (jh\<lparr>nbytes_used := u'\<rparr>) (txns @ [txn_of idx v'])"
    unfolding img' using holds_jput [OF h txn_of_wf [OF bw(1)] u'] bw(3) u' by simp
  have lb: "length (enc_recs (txn_recs (txn_of idx v'))) = 4104 * length (txn_of idx v') + 4"
    by (rule length_enc_txn [OF txn_of_wf [OF bw(1)]])
  show "length img' = length img1"
    unfolding img' using jput_length_inside [of _ _ "nbytes_used jh" img1] lb bw(3) d(1) u8
    by simp
  show "read_block img' k = read_block img1 k" if "17 \<le> k" "k * 4096 + 4096 \<le> length img1" for k
    unfolding img' using read_block_jput [OF that, of _ "nbytes_used jh"] lb bw(3) by simp
qed

lemma nth_blit:
  assumes "off + length src \<le> length buf" "k < length buf"
  shows "blit buf off src ! k = (if off \<le> k \<and> k < off + length src then src ! (k - off) else buf ! k)"
  unfolding blit_def using assms by (auto simp: nth_append min_def)

lemma le16_blit_other:
  assumes "off + length src \<le> length buf" "k + 2 \<le> off \<or> off + length src \<le> k" "k + 2 \<le> length buf"
  shows "le16 (blit buf off src) k = le16 buf k"
  unfolding le16_def using assms by (auto simp: nth_blit)

lemma le32_blit_other:
  assumes "off + length src \<le> length buf" "k + 4 \<le> off \<or> off + length src \<le> k" "k + 4 \<le> length buf"
  shows "le32 (blit buf off src) k = le32 buf k"
  unfolding le32_def using assms by (auto simp: nth_blit)

lemma le32_at: "le32 (xs @ ys) (length xs) = le32 ys 0"
  using le32_append_right [of xs ys 0] by simp

lemma le32_blit_enc32:
  assumes "off + 4 \<le> length buf"
  shows "le32 (blit buf off (enc32 v)) off = v mod U32"
proof -
  have "le32 (take off buf @ enc32 v @ drop (off + 4) buf) (length (take off buf)) = v mod U32"
    unfolding le32_at by (rule le32_enc32)
  then show ?thesis using assms by (simp add: blit_def min_absorb2)
qed

lemma slice_blit_same:
  assumes "off + length src \<le> length buf"
  shows "take (length src) (drop off (blit buf off src)) = src"
  unfolding blit_def using assms by (simp add: min_absorb2)

lemma le16_new_inode: "le16 (new_inode_bytes now @ xs) 0 = 1"
  using le16_enc16 [of 1] by (simp add: new_inode_bytes_def)

lemma create_build_slot2:
  assumes wf: "view_wf v"
    and a: "alloc_scan (inode_bm v) = Some i" "i < 32"
    and ty: "le16 (itbl19 v) (128 * i) = 0"
    and sz: "le32 (itbl19 v) 4 < 96"
    and e: "le32 (root_dir_img v) 0 = 0" "le32 (root_dir_img v) 32 = 0"
    and cap: "nbytes_used jh + 12316 \<le> 65536"
    and nm: "length name \<le> 27"
  obtains v' where "create_build v jh name now = Inr (0, v')"
    "inode_bm v' = bitmap_set (inode_bm v) i"
    "le16 (itbl19 v') 0 = le16 (itbl19 v) 0" "le32 (itbl19 v') 8 = le32 (itbl19 v) 8"
    "le32 (itbl19 v') 4 = le32 (itbl19 v) 4 + 32"
    "\<And>k. k < 32 \<Longrightarrow> k \<noteq> i \<Longrightarrow> k \<noteq> 0 \<Longrightarrow> le16 (itbl19 v') (128 * k) = le16 (itbl19 v) (128 * k)"
    "itbl20 v' = itbl20 v" "root_dir_block_no v' = root_dir_block_no v"
    "le32 (root_dir_img v') 0 = 0" "le32 (root_dir_img v') 32 = 0" "le32 (root_dir_img v') 64 = i"
    "take 28 (drop 68 (root_dir_img v')) = name @ replicate (28 - length name) 0"
    "le32 (root_dir_img v') 96 = le32 (root_dir_img v) 96"
    "le32 (root_dir_img v') 128 = le32 (root_dir_img v) 128"
proof -
  have l: "length (inode_bm v) = 4096" "length (itbl19 v) = 4096" "length (itbl20 v) = 4096"
    "length (root_dir_img v) = 4096"
    using wf by (simp_all add: view_wf_def)
  have i1: "1 \<le> i" using a(1) by (simp add: alloc_scan_Some_iff)
  have io: "128 * i + 128 \<le> 4096" "128 \<le> 128 * i" using a(2) i1 by simp_all
  define t19a where "t19a = blit (itbl19 v) (128 * i) (new_inode_bytes now)"
  define t19b where "t19b = blit t19a 4 (enc32 ((le32 t19a 4 + 32) mod U32))"
  define t19c where "t19c = blit t19b 44 (enc32 now)"
  define d1 where "d1 = blit (root_dir_img v) 64 (enc32 i)"
  define d2 where "d2 = blit d1 68 (replicate 28 0)"
  define d3 where "d3 = blit d2 68 (take 27 name @ replicate (27 - length (take 27 name)) 0)"
  define v' where "v' = \<lparr>inode_bm = bitmap_set (inode_bm v) i, itbl19 = t19c, itbl20 = itbl20 v,
      root_dir_block_no = root_dir_block_no v, root_dir_img = d3\<rparr>"
  have la: "length t19a = 4096" unfolding t19a_def using l io by (simp add: length_blit)
  have lb: "length t19b = 4096" unfolding t19b_def using la by (simp add: length_blit)
  have ld1: "length d1 = 4096" unfolding d1_def using l by (simp add: length_blit)
  have ld2: "length d2 = 4096" unfolding d2_def using ld1 by (simp add: length_blit)
  have ue: "(if le32 (itbl19 v) 4 div 32 < 2 then 2 else le32 (itbl19 v) 4 div 32) = 2"
    using sz by auto
  have nd: "\<not> dir_has_name (root_dir_img v) 2 name"
    using e by (simp add: dir_has_name_def list_ex_upt_unfold del: upt_rec_numeral)
  have cp: "\<not> (nbytes_used jh + 12316) mod U32 > 65536" using cap by simp
  have b: "create_build v jh name now = Inr (0, v')"
    unfolding create_build_def Let_def ue
    using a ty nd cp
    by (simp add: journal_capacity_bytes_def v'_def t19c_def t19b_def t19a_def d3_def d2_def d1_def)
  have sa: "le32 t19a 4 = le32 (itbl19 v) 4"
    unfolding t19a_def using l io by (intro le32_blit_other) simp_all
  have s4: "le32 t19c 4 = le32 (itbl19 v) 4 + 32"
  proof -
    have "le32 t19c 4 = le32 t19b 4"
      unfolding t19c_def using lb by (intro le32_blit_other) simp_all
    also have "\<dots> = (le32 t19a 4 + 32) mod U32"
      unfolding t19b_def using la le32_blit_enc32 [of 4 t19a "(le32 t19a 4 + 32) mod U32"]
      by simp
    finally show ?thesis using sa sz by simp
  qed
  have s8: "le32 t19c 8 = le32 (itbl19 v) 8"
  proof -
    have "le32 t19c 8 = le32 t19b 8"
      unfolding t19c_def using lb by (intro le32_blit_other) simp_all
    also have "\<dots> = le32 t19a 8"
      unfolding t19b_def using la by (intro le32_blit_other) simp_all
    also have "\<dots> = le32 (itbl19 v) 8"
      unfolding t19a_def using l io by (intro le32_blit_other) simp_all
    finally show ?thesis .
  qed
  have sk: "le16 t19c (128 * k) = le16 (itbl19 v) (128 * k)" if "k < 32" "k \<noteq> i" for k
  proof -
    have k: "128 * k + 2 \<le> 4096" using that(1) by simp
    have dj: "128 * k + 2 \<le> 128 * i \<or> 128 * i + 128 \<le> 128 * k"
      using that(2) by (cases "k < i") auto
    have z: "k = 0 \<or> 128 \<le> 128 * k" by auto
    have "le16 t19c (128 * k) = le16 t19b (128 * k)"
      unfolding t19c_def using lb k z by (intro le16_blit_other) auto
    also have "\<dots> = le16 t19a (128 * k)"
      unfolding t19b_def using la k z by (intro le16_blit_other) auto
    also have "\<dots> = le16 (itbl19 v) (128 * k)"
      unfolding t19a_def using l io k dj by (intro le16_blit_other) auto
    finally show ?thesis .
  qed
  have s0: "le16 t19c 0 = le16 (itbl19 v) 0" using sk [of 0] i1 by simp
  have dk: "le32 d3 k = le32 (root_dir_img v) k" if "k + 4 \<le> 64 \<or> 96 \<le> k" "k + 4 \<le> 4096" for k
  proof -
    have "le32 d3 k = le32 d2 k"
      unfolding d3_def using ld2 that nm by (intro le32_blit_other) auto
    also have "\<dots> = le32 d1 k"
      unfolding d2_def using ld1 that by (intro le32_blit_other) auto
    also have "\<dots> = le32 (root_dir_img v) k"
      unfolding d1_def using l that by (intro le32_blit_other) auto
    finally show ?thesis .
  qed
  have d64: "le32 d3 64 = i"
  proof -
    have "le32 d3 64 = le32 d2 64"
      unfolding d3_def using ld2 nm by (intro le32_blit_other) auto
    also have "\<dots> = le32 d1 64"
      unfolding d2_def using ld1 by (intro le32_blit_other) auto
    also have "\<dots> = i mod U32"
      unfolding d1_def using l by (intro le32_blit_enc32) simp
    finally show ?thesis using a(2) by simp
  qed
  have dn: "take 28 (drop 68 d3) = name @ replicate (28 - length name) 0"
  proof -
    let ?src = "take 27 name @ replicate (27 - length (take 27 name)) 0"
    have ls: "length ?src = 27" using nm by simp
    have "take (length ?src) (drop 68 d3) = ?src"
      unfolding d3_def using ld2 ls by (intro slice_blit_same) simp
    then have t27: "take 27 (drop 68 d3) = name @ replicate (27 - length name) 0"
      using ls nm by simp
    have ld3: "length d3 = 4096" unfolding d3_def using ld2 ls by (simp add: length_blit)
    have "d3 ! 95 = d2 ! 95"
      unfolding d3_def using ld2 ls by (subst nth_blit) auto
    also have "\<dots> = 0"
      unfolding d2_def using ld1 by (subst nth_blit) auto
    finally have z: "d3 ! 95 = 0" .
    have "take 28 (drop 68 d3) = take 27 (drop 68 d3) @ [drop 68 d3 ! 27]"
      using ld3 by (simp add: take_Suc_conv_app_nth [of 27, simplified])
    also have "\<dots> = (name @ replicate (27 - length name) 0) @ [0]"
      using t27 z ld3 by simp
    also have "\<dots> = name @ replicate (28 - length name) 0"
    proof -
      have "28 - length name = Suc (27 - length name)" using nm by simp
      then show ?thesis by (simp add: replicate_append_same)
    qed
    finally show ?thesis .
  qed
  show ?thesis
    apply (rule that [of v'])
    using b s0 s8 s4 sk dk [of 0] dk [of 32] dk [of 96] dk [of 128] d64 dn
    by (simp_all add: v'_def e)
qed

lemma length_demo_fresh: "length demo_fresh = 90112"
  by (simp add: demo_fresh_def)

lemma demo_fresh_blocks:
  "read_block demo_fresh 17 = Some (inode_bm demo_v0)"
  "read_block demo_fresh 19 = Some (itbl19 demo_v0)"
  "read_block demo_fresh 20 = Some (itbl20 demo_v0)"
  "read_block demo_fresh 21 = Some (root_dir_img demo_v0)"
  by (simp_all add: read_block_def pread_exact_def demo_fresh_def demo_v0_def
      replicate_add [symmetric])

lemma demo_v0_fields:
  "le16 (itbl19 demo_v0) 0 = 2" "le32 (itbl19 demo_v0) 8 = 21" "le32 (itbl19 demo_v0) 4 = 0"
  "le16 (itbl19 demo_v0) 128 = 0" "le16 (itbl19 demo_v0) 256 = 0" "le16 (itbl19 demo_v0) 384 = 0"
  "le32 (root_dir_img demo_v0) 0 = 0" "le32 (root_dir_img demo_v0) 32 = 0"
  "le32 (root_dir_img demo_v0) 96 = 0" "le32 (root_dir_img demo_v0) 128 = 0"
  "root_dir_block_no demo_v0 = 21" "view_wf demo_v0"
  by (simp_all add: demo_v0_def le16_def le32_def nth_append view_wf_def)

lemma demo_live:
  assumes "\<And>k. 17 \<le> k \<Longrightarrow> k * 4096 + 4096 \<le> 90112 \<Longrightarrow> read_block img k = read_block demo_fresh k"
  shows "create_read_live img = Inr demo_v0"
  unfolding create_read_live_def
  using assms [of 17] assms [of 19] assms [of 20] assms [of 21]
  by (simp add: demo_fresh_blocks demo_v0_fields)

lemma demo_fresh_init:
  "journal_init_if_needed demo_fresh = (Inr fresh_header, reset_journal demo_fresh)"
proof -
  have "pread_exact demo_fresh 8 4096 = Some (replicate 8 0)"
    by (simp add: pread_exact_def demo_fresh_def)
  then have "journal_read_header demo_fresh = Some \<lparr>magic = 0, nbytes_used = 0\<rparr>"
    by (simp add: journal_read_header_def journal_base_off_def le32_def)
  then show ?thesis
    by (simp add: journal_init_if_needed_def header_invalid_def reset_journal_def)
qed

lemma overlay_or_Nil [simp]: "overlay_or [] b x = x"
  by (simp add: overlay_or_def spec_overlay_def)

lemma overlay_or_last:
  assumes "root_dir_block_no v = 21"
  shows "overlay_or (txns @ [txn_of 0 v]) 17 x = inode_bm v"
    "overlay_or (txns @ [txn_of 0 v]) 19 x = itbl19 v"
    "overlay_or (txns @ [txn_of 0 v]) 21 x = root_dir_img v"
    "overlay_or (txns @ [txn_of 0 v]) 20 x = overlay_or txns 20 x"
  by (simp_all add: overlay_or_def spec_overlay_snoc last_image_def txn_of_def assms)

lemma txn_of_safe: "view_wf v \<Longrightarrow> root_dir_block_no v = 21 \<Longrightarrow> \<forall>p \<in> set (txn_of 0 v). safe_entry p"
  by (simp add: txn_of_def safe_entry_def view_wf_def)

lemma bitmap_evals:
  "alloc_scan (1 # replicate 4095 0) = Some 1"
  "bitmap_set (1 # replicate 4095 0) 1 = 3 # replicate 4095 0"
  "alloc_scan (3 # replicate 4095 0) = Some 2"
  "bitmap_set (3 # replicate 4095 0) 2 = 7 # replicate 4095 0"
  "alloc_scan (7 # replicate 4095 0) = Some 3"
  "bitmap_set (7 # replicate 4095 0) 3 = 15 # replicate 4095 0"
  by (simp_all add: alloc_scan_def find_upt_unfold bitmap_test_def bitmap_set_def
      del: upt_rec_numeral)

lemma spec_overlay_last:
  assumes "root_dir_block_no v = 21"
  shows "spec_overlay (txns @ [txn_of 0 v]) 17 = Some (inode_bm v)"
    "spec_overlay (txns @ [txn_of 0 v]) 21 = Some (root_dir_img v)"
  by (simp_all add: spec_overlay_snoc last_image_def txn_of_def assms)

lemma demo_next:
  assumes h: "journal_holds img jh (txns @ [txn_of 0 v])"
    and live: "\<And>k. 17 \<le> k \<Longrightarrow> k * 4096 + 4096 \<le> 90112 \<Longrightarrow> read_block img k = read_block demo_fresh k"
    and len: "length img = 90112"
    and n20: "spec_overlay (txns @ [txn_of 0 v]) 20 = None"
    and v: "root_dir_block_no v = 21" "le16 (itbl19 v) 0 = 2" "le32 (itbl19 v) 8 = 21"
      "itbl20 v = itbl20 demo_v0"
    and name: "takeWhile (\<lambda>c. c \<noteq> 0) arg = name" "name \<noteq> []" "length name < 28"
    and b: "create_build v jh name now = Inr (0, v')"
    and u': "u' = nbytes_used jh + 12316"
    and img': "img' = jput img (nbytes_used jh) (enc_recs (txn_recs (txn_of 0 v')))
         (enc32 JOURNAL_MAGIC @ enc32 u')"
  shows "cmd_create img arg now = Some (Inr (), img')"
    "journal_holds img' (jh\<lparr>nbytes_used := u'\<rparr>) ((txns @ [txn_of 0 v]) @ [txn_of 0 v'])"
    "length img' = 90112"
    "\<And>k. 17 \<le> k \<Longrightarrow> k * 4096 + 4096 \<le> 90112 \<Longrightarrow> read_block img' k = read_block demo_fresh k"
    "spec_overlay ((txns @ [txn_of 0 v]) @ [txn_of 0 v']) 20 = None"
proof -
  have i: "journal_init_if_needed img = (Inr jh, img)" by (rule holds_init [OF h])
  have r: "create_read_live img = Inr demo_v0" by (rule demo_live [OF live])
  have d: "read_block img 21 = Some (root_dir_img demo_v0)"
    using live [of 21] by (simp add: demo_fresh_blocks)
  have veq: "\<lparr>inode_bm = inode_bm v, itbl19 = itbl19 v, itbl20 = itbl20 demo_v0,
      root_dir_block_no = 21, root_dir_img = root_dir_img v\<rparr> = v"
    by (rule view.equality) (simp_all add: v)
  have "create_overlay img jh demo_v0 =
     Some (Inr \<lparr>inode_bm = overlay_or (txns @ [txn_of 0 v]) 17 (inode_bm demo_v0),
                itbl19 = overlay_or (txns @ [txn_of 0 v]) 19 (itbl19 demo_v0),
                itbl20 = overlay_or (txns @ [txn_of 0 v]) 20 (itbl20 demo_v0),
                root_dir_block_no = 21,
                root_dir_img = overlay_or (txns @ [txn_of 0 v]) 21 (root_dir_img demo_v0)\<rparr>)"
    by (rule create_overlay_holds [OF h _ _ _ _ d]) (simp_all add: overlay_or_last [OF v(1)] v)
  moreover have "overlay_or (txns @ [txn_of 0 v]) 20 (itbl20 demo_v0) = itbl20 demo_v0"
    by (simp add: overlay_or_def n20)
  ultimately have o: "create_overlay img jh demo_v0 = Some (Inr v)"
    by (simp add: overlay_or_last [OF v(1)] veq)
  have ut: "u' = nbytes_used jh + 4104 * length (txn_of 0 v') + 4"
    using u' by (simp add: txn_of_def)
  note st = create_step [OF i h name r o b ut img']
  show "cmd_create img arg now = Some (Inr (), img')" by (rule st(1))
  show "journal_holds img' (jh\<lparr>nbytes_used := u'\<rparr>) ((txns @ [txn_of 0 v]) @ [txn_of 0 v'])"
    by (rule st(2))
  show "length img' = 90112" using st(3) len by simp
  show "read_block img' k = read_block demo_fresh k" if "17 \<le> k" "k * 4096 + 4096 \<le> 90112" for k
    using st(4) [of k] live [of k] that len by simp
  have "root_dir_block_no v' = 21"
    using b v(1) by (elim create_build_Inr) simp
  then show "spec_overlay ((txns @ [txn_of 0 v]) @ [txn_of 0 v']) 20 = None"
    unfolding spec_overlay_snoc [of "txns @ [txn_of 0 v]"] using n20
    by (simp add: last_image_def txn_of_def)
qed

subsection \<open>Create on the example images\<close>









subsection \<open>The overlay scan with any bound on the array\<close>















section \<open>The claims on the scans, on create and on install\<close>

text \<open>
  Claim C1. For a journal with a valid header (in an image file that holds the bytes the
  header counts), the overlay scan returns, and looking a block number up in its result
  gives the overlay of the specification on the records of the journal: the image of the
  last DATA record for that block in the latest committed transaction that names it, and
  nothing for a block named only after the last COMMIT.
\<close>

theorem overlay_is_latest_committed:
  assumes "\<not> header_invalid jh" and "journal_base_off + nbytes_used jh \<le> length img"
  shows "\<exists>latest. journal_collect_latest_committed img jh 64 = Some (Inr latest)
     \<and> (\<forall>b. logged_image_find latest b
              = spec_overlay (spec_txns (spec_decode img (nbytes_used jh) 8) []) b)"
  using assms by (rule collect_overlay)

lemma demo_torn_decode_txns:
  "spec_txns (spec_decode demo_torn (nbytes_used demo_jh) 8) [] = [demo_t1, demo_t2]"
proof -
  obtain k where d: "spec_decode demo_torn (nbytes_used demo_jh) 8
      = recs_of [demo_t1, demo_t2] @ map (\<lambda>p. DATA (fst p) (snd p)) (take k demo_t3)"
    using decode_torn [OF demo_jh_valid demo_torn_long demo_wf(1,2) _ _ demo_torn_bytes]
      demo_lengths
    by (auto simp: demo_jh_def)
  show ?thesis unfolding d spec_txns_recs_of by (simp add: spec_txns_open)
qed

theorem overlay_is_latest_committed_witness:
  "\<not> header_invalid demo_jh \<and> journal_base_off + nbytes_used demo_jh \<le> length demo_torn
   \<and> (\<exists>latest. journal_collect_latest_committed demo_torn demo_jh 64 = Some (Inr latest)
         \<and> logged_image_find latest 17 = Some (replicate 4096 3)
         \<and> logged_image_find latest 19 = Some (replicate 4096 4)
         \<and> logged_image_find latest 20 = None)"
proof -
  have l: "journal_base_off + nbytes_used demo_jh \<le> length demo_torn"
    by (simp add: demo_torn_length demo_jh_def journal_base_off_def)
  from overlay_is_latest_committed [OF demo_jh_valid l]
  show ?thesis
    using demo_jh_valid l unfolding demo_torn_decode_txns
    by (auto simp: demo_overlay_values)
qed

text \<open>
  Claim C2, as the code has it. Take a journal whose record area holds complete committed
  transactions and a further transaction (its DATA records and its COMMIT), and cut the
  bytes in use anywhere before the end of that last transaction, so that the header does
  not cover its COMMIT. Provided that the image file holds all the bytes the header counts
  and that the complete transactions write no block of the journal region (they write
  block 0 or blocks from 17 on), the overlay scan gives the overlay of the complete
  transactions alone, and install replays the complete transactions alone and reports
  their number: the cut transaction adds no block to the overlay and none of its blocks
  is written. Neither proviso can be dropped, as the two examples after the theorem show.
\<close>

theorem truncated_transaction_invisible:
  assumes "journal_read_header img = Some jh" and "\<not> header_invalid jh"
    and "journal_base_off + nbytes_used jh \<le> length img"
    and "\<forall>t \<in> set txns. \<forall>p \<in> set t. entry_wf p" and "\<forall>p \<in> set t. entry_wf p"
    and "\<forall>t \<in> set txns. \<forall>p \<in> set t. safe_entry p"
    and "8 + length (enc_recs (recs_of txns)) \<le> nbytes_used jh"
    and "nbytes_used jh < 8 + length (enc_recs (recs_of txns)) + length (enc_recs (txn_recs t))"
    and "take (nbytes_used jh - 8) (drop 4104 img)
        = take (nbytes_used jh - 8) (enc_recs (recs_of txns @ txn_recs t))"
  shows "(\<exists>latest. journal_collect_latest_committed img jh 64 = Some (Inr latest)
            \<and> (\<forall>b. logged_image_find latest b = spec_overlay txns b))
     \<and> cmd_install img = Some (Inr (length txns), reset_journal (replay txns img))"
  using assms by (rule torn_invisible)

theorem truncated_transaction_invisible_witness:
  "journal_read_header demo_torn = Some demo_jh \<and> \<not> header_invalid demo_jh
   \<and> journal_base_off + nbytes_used demo_jh \<le> length demo_torn
   \<and> 8 + length (enc_recs (recs_of [demo_t1, demo_t2])) \<le> nbytes_used demo_jh
   \<and> nbytes_used demo_jh
       < 8 + length (enc_recs (recs_of [demo_t1, demo_t2])) + length (enc_recs (txn_recs demo_t3))
   \<and> (\<exists>latest. journal_collect_latest_committed demo_torn demo_jh 64 = Some (Inr latest)
         \<and> logged_image_find latest 20 = None \<and> logged_image_find latest 21 = None)
   \<and> cmd_install demo_torn = Some (Inr 2, reset_journal (replay [demo_t1, demo_t2] demo_torn))"
proof -
  have lo: "8 + length (enc_recs (recs_of [demo_t1, demo_t2])) \<le> nbytes_used demo_jh"
    using demo_lengths by (simp add: demo_jh_def)
  have hi: "nbytes_used demo_jh
       < 8 + length (enc_recs (recs_of [demo_t1, demo_t2])) + length (enc_recs (txn_recs demo_t3))"
    using demo_lengths by (simp add: demo_jh_def)
  have n: "spec_overlay [demo_t1, demo_t2] 21 = None"
    by (simp add: spec_overlay_def last_image_def demo_t1_def demo_t2_def)
  from truncated_transaction_invisible
    [OF demo_torn_header demo_jh_valid demo_torn_long demo_wf(1,2,3) lo hi demo_torn_bytes]
  show ?thesis
    using demo_torn_header demo_jh_valid demo_torn_long lo hi
    by (auto simp: demo_overlay_values n)
qed

text \<open>
  The second proviso is needed. In \<open>overwrite_img\<close> the header is valid, the file holds the
  whole journal region, and the record area is a transaction that writes block 3 followed
  by a transaction for blocks 17 and 18 cut before its COMMIT. Install replays the first
  transaction into the journal region itself, then reads the bytes it has just written
  there as the COMMIT of the second transaction: it reports 2 commits and writes block 17.
\<close>

theorem torn_transaction_replayed:
  "journal_read_header overwrite_img = Some overwrite_jh \<and> \<not> header_invalid overwrite_jh
   \<and> journal_base_off + nbytes_used overwrite_jh \<le> length overwrite_img
   \<and> 8 + length (enc_recs (recs_of [overwrite_t1])) \<le> nbytes_used overwrite_jh
   \<and> nbytes_used overwrite_jh
       < 8 + length (enc_recs (recs_of [overwrite_t1])) + length (enc_recs (txn_recs overwrite_t2))
   \<and> take (nbytes_used overwrite_jh - 8) (drop 4104 overwrite_img)
       = take (nbytes_used overwrite_jh - 8)
           (enc_recs (recs_of [overwrite_t1] @ txn_recs overwrite_t2))
   \<and> read_block overwrite_img 17 = Some (replicate 4096 0)
   \<and> (\<exists>img'. cmd_install overwrite_img = Some (Inr 2, img')
        \<and> read_block img' 17 = Some (replicate 4068 7 @ replicate 28 0))
   \<and> cmd_install overwrite_img
       \<noteq> Some (Inr (length [overwrite_t1]), reset_journal (replay [overwrite_t1] overwrite_img))"
proof -
  have l: "journal_base_off + nbytes_used overwrite_jh \<le> length overwrite_img"
    by (simp add: journal_base_off_def overwrite_jh_def length_overwrite_img)
  have r0: "read_block overwrite_img 17 = Some (replicate 4096 0)"
    by (simp add: read_block_def pread_exact_def overwrite_img_def)
  have lm: "length overwrite_mid = 90112"
    by (simp add: overwrite_mid_eq)
  let ?w = "write_block overwrite_mid 17 (replicate 4068 7 @ replicate 28 0)"
  have lw: "length ?w = 90112"
    unfolding write_block_def using lm by (subst length_pwrite_inside) simp_all
  have "read_block (reset_journal ?w) 17 = read_block ?w 17"
    using lw by (intro read_block_reset) simp_all
  also have "\<dots> = Some (replicate 4068 7 @ replicate 28 0)"
    using lm by (intro read_block_written) simp_all
  finally have r1: "read_block (reset_journal ?w) 17 = Some (replicate 4068 7 @ replicate 28 0)" .
  show ?thesis
    using overwrite_header overwrite_valid l overwrite_lengths overwrite_bytes r0
      overwrite_install r1
    by simp
qed

text \<open>
  The first proviso is needed. In \<open>cut_img\<close> the header counts a whole DATA record and
  the file ends in the middle of it: both scans end with the error of a short read.
\<close>

lemma cut_file_scans_die:
  "journal_read_header cut_img = Some cut_jh \<and> \<not> header_invalid cut_jh
   \<and> length cut_img = 6104
   \<and> journal_collect_latest_committed cut_img cut_jh 64 = Some (Inl Io)
   \<and> cmd_install cut_img = Some (Inl Io, cut_img)"
proof -
  have f: "journal_fail_if_missing cut_img = Inr cut_jh"
    using cut_header cut_valid by (simp add: journal_fail_if_missing_def)
  have i: "install_iter 4112 (install_init cut_img) = (install_init cut_img)\<lparr>i_exit := Some Io\<rparr>"
    by (simp add: install_iter_def Let_def install_init_def journal_base_off_def cut_reads
        le16_header_bytes)
  have "while_option (install_cond 4112) (install_iter 4112) (install_init cut_img)
      = while_option (install_cond 4112) (install_iter 4112)
          ((install_init cut_img)\<lparr>i_exit := Some Io\<rparr>)"
    by (subst install_go) (simp_all only: i, simp_all add: install_cond_def install_init_def)
  also have "\<dots> = Some ((install_init cut_img)\<lparr>i_exit := Some Io\<rparr>)"
    by (rule install_stop) (simp add: install_cond_def)
  finally have a: "cmd_install cut_img = Some (Inl Io, cut_img)"
    using f by (simp add: cmd_install_def cut_jh_def install_init_def)
  have c: "collect_iter cut_img 4112 64 collect_init = collect_init\<lparr>c_died := True\<rparr>"
    by (simp add: collect_iter_def Let_def collect_init_def journal_base_off_def cut_reads
        le16_header_bytes)
  have "while_option (collect_cond 4112) (collect_iter cut_img 4112 64) collect_init
      = while_option (collect_cond 4112) (collect_iter cut_img 4112 64)
          (collect_init\<lparr>c_died := True\<rparr>)"
    by (subst collect_go) (simp_all only: c, simp_all add: collect_cond_def collect_init_def)
  also have "\<dots> = Some (collect_init\<lparr>c_died := True\<rparr>)"
    by (rule collect_stop) (simp add: collect_cond_def)
  finally have b: "journal_collect_latest_committed cut_img cut_jh 64 = Some (Inl Io)"
    by (simp add: journal_collect_latest_committed_def cut_jh_def)
  have "length cut_img = 6104" by (simp add: cut_img_def)
  then show ?thesis using cut_header cut_valid a b by simp
qed




text \<open>
  Claim C4. On the freshly formatted image \<open>demo_fresh\<close> (root inode a directory of size 0,
  inode bitmap with bit 0 only, empty root directory block, journal region zero),
  \<^verbatim>\<open>create a\<close>, \<^verbatim>\<open>create b\<close>, \<^verbatim>\<open>create c\<close> succeed and install reports 3 commits and leaves
  inode bitmap byte 0 equal to 0x0F. Of the first five entries of the root directory
  block, however, only the entry at offset 64 is in use, with inode 3 and name \<^verbatim>\<open>c\<close>: the
  entries at offsets 0, 32, 96 and 128 have inode 0. Lines 418-420 take the entry index
  from the size of the root inode, which is 0, 32 and 64 in the three runs: the index is 2
  each time, and each create overwrites the entry of the one before.
\<close>

theorem three_creates_reuse_slot:
  "\<exists>img1 img2 img3 img4 bm dir.
     cmd_create demo_fresh [97] t1 = Some (Inr (), img1)
     \<and> cmd_create img1 [98] t2 = Some (Inr (), img2)
     \<and> cmd_create img2 [99] t3 = Some (Inr (), img3)
     \<and> cmd_install img3 = Some (Inr 3, img4)
     \<and> read_block img4 17 = Some bm \<and> bm ! 0 = 0x0F
     \<and> read_block img4 21 = Some dir
     \<and> le32 dir 0 = 0 \<and> le32 dir 32 = 0
     \<and> le32 dir 64 = 3 \<and> take 28 (drop 68 dir) = 99 # replicate 27 0
     \<and> le32 dir 96 = 0 \<and> le32 dir 128 = 0"
proof -
  define J0 where "J0 = reset_journal demo_fresh"
  have lJ0: "length J0 = 90112" by (simp add: J0_def length_reset_journal length_demo_fresh)
  have rJ0: "read_block J0 k = read_block demo_fresh k" if "17 \<le> k" "k * 4096 + 4096 \<le> 90112" for k
    unfolding J0_def using that by (intro read_block_reset) (simp_all add: length_demo_fresh)
  have h0: "journal_holds J0 fresh_header []" unfolding J0_def by (rule holds_reset)
  have i0: "journal_init_if_needed demo_fresh = (Inr fresh_header, J0)"
    unfolding J0_def by (rule demo_fresh_init)
  have r0: "create_read_live J0 = Inr demo_v0" by (rule demo_live [OF rJ0])
  have o0: "create_overlay J0 fresh_header demo_v0 = Some (Inr demo_v0)"
    by (simp add: create_overlay_def fresh_header_def)
  note f = demo_v0_fields
  have bm0: "inode_bm demo_v0 = 1 # replicate 4095 0" by (simp add: demo_v0_def)
  have t20: "itbl20 demo_v0 = itbl20 demo_v0" ..
  \<comment> \<open>create a\<close>
  obtain va where va: "create_build demo_v0 fresh_header [97] t1 = Inr (0, va)"
    "inode_bm va = bitmap_set (inode_bm demo_v0) 1"
    "le16 (itbl19 va) 0 = le16 (itbl19 demo_v0) 0" "le32 (itbl19 va) 8 = le32 (itbl19 demo_v0) 8"
    "le32 (itbl19 va) 4 = le32 (itbl19 demo_v0) 4 + 32"
    "\<And>k. k < 32 \<Longrightarrow> k \<noteq> 1 \<Longrightarrow> k \<noteq> 0 \<Longrightarrow> le16 (itbl19 va) (128 * k) = le16 (itbl19 demo_v0) (128 * k)"
    "itbl20 va = itbl20 demo_v0" "root_dir_block_no va = root_dir_block_no demo_v0"
    "le32 (root_dir_img va) 0 = 0" "le32 (root_dir_img va) 32 = 0" "le32 (root_dir_img va) 64 = 1"
    "take 28 (drop 68 (root_dir_img va)) = [97] @ replicate (28 - length [97 :: u8]) 0"
    "le32 (root_dir_img va) 96 = le32 (root_dir_img demo_v0) 96"
    "le32 (root_dir_img va) 128 = le32 (root_dir_img demo_v0) 128"
    by (rule create_build_slot2 [of demo_v0 1 fresh_header "[97]" t1])
      (simp_all add: f bm0 bitmap_evals fresh_header_def)
  have wa: "view_wf va"
    by (rule create_build_wf(1) [OF va(1) f(12)]) (simp add: fresh_header_def)
  define img1 where "img1 = jput J0 (nbytes_used fresh_header) (enc_recs (txn_recs (txn_of 0 va)))
         (enc32 JOURNAL_MAGIC @ enc32 12324)"
  have u1: "12324 = nbytes_used fresh_header + 4104 * length (txn_of 0 va) + 4"
    by (simp add: fresh_header_def txn_of_def)
  have nma: "takeWhile (\<lambda>c. c \<noteq> 0) [97 :: u8] = [97]" "[97 :: u8] \<noteq> []" "length [97 :: u8] < 28"
    and nmb: "takeWhile (\<lambda>c. c \<noteq> 0) [98 :: u8] = [98]" "[98 :: u8] \<noteq> []" "length [98 :: u8] < 28"
    and nmc: "takeWhile (\<lambda>c. c \<noteq> 0) [99 :: u8] = [99]" "[99 :: u8] \<noteq> []" "length [99 :: u8] < 28"
    by simp_all
  note s1 = create_step [OF i0 h0 nma r0 o0 va(1) u1 img1_def]
  have l1: "length img1 = 90112" using s1(3) lJ0 by simp
  have r1: "read_block img1 k = read_block demo_fresh k" if "17 \<le> k" "k * 4096 + 4096 \<le> 90112" for k
    using s1(4) [of k] rJ0 [of k] that lJ0 by simp
  have n1: "spec_overlay ([] @ [txn_of 0 va]) 20 = None"
    using va(8) f(11) by (simp add: spec_overlay_def last_image_def txn_of_def)
  note h1 = s1(2)
  have bma: "inode_bm va = 3 # replicate 4095 0" unfolding va(2) bm0 by (rule bitmap_evals)
  \<comment> \<open>create b\<close>
  obtain vb where vb: "create_build va (fresh_header\<lparr>nbytes_used := 12324\<rparr>) [98] t2 = Inr (0, vb)"
    "inode_bm vb = bitmap_set (inode_bm va) 2"
    "le16 (itbl19 vb) 0 = le16 (itbl19 va) 0" "le32 (itbl19 vb) 8 = le32 (itbl19 va) 8"
    "le32 (itbl19 vb) 4 = le32 (itbl19 va) 4 + 32"
    "\<And>k. k < 32 \<Longrightarrow> k \<noteq> 2 \<Longrightarrow> k \<noteq> 0 \<Longrightarrow> le16 (itbl19 vb) (128 * k) = le16 (itbl19 va) (128 * k)"
    "itbl20 vb = itbl20 va" "root_dir_block_no vb = root_dir_block_no va"
    "le32 (root_dir_img vb) 0 = 0" "le32 (root_dir_img vb) 32 = 0" "le32 (root_dir_img vb) 64 = 2"
    "take 28 (drop 68 (root_dir_img vb)) = [98] @ replicate (28 - length [98 :: u8]) 0"
    "le32 (root_dir_img vb) 96 = le32 (root_dir_img va) 96"
    "le32 (root_dir_img vb) 128 = le32 (root_dir_img va) 128"
    by (rule create_build_slot2 [of va 2 "fresh_header\<lparr>nbytes_used := 12324\<rparr>" "[98]" t2])
      (simp_all add: wa bma bitmap_evals va(5) va(6) [of 2, simplified] va(9,10) f fresh_header_def)
  have wb: "view_wf vb"
    by (rule create_build_wf(1) [OF vb(1) wa]) (simp add: fresh_header_def)
  define img2 where "img2 = jput img1 (nbytes_used (fresh_header\<lparr>nbytes_used := 12324\<rparr>))
         (enc_recs (txn_recs (txn_of 0 vb))) (enc32 JOURNAL_MAGIC @ enc32 24640)"
  have u2: "24640 = nbytes_used (fresh_header\<lparr>nbytes_used := 12324\<rparr>) + 12316" by simp
  have va_v: "root_dir_block_no va = 21" "le16 (itbl19 va) 0 = 2" "le32 (itbl19 va) 8 = 21"
    using va(3,4,8) f by simp_all
  note d2 = demo_next [where img = img1 and txns = "[]" and v = va
      and jh = "fresh_header\<lparr>nbytes_used := 12324\<rparr>", OF h1 _ l1 n1 va_v va(7) nmb vb(1) u2 img2_def]
  have c2: "cmd_create img1 [98] t2 = Some (Inr (), img2)"
    by (rule d2(1)) (simp add: r1)
  have h2: "journal_holds img2 (fresh_header\<lparr>nbytes_used := 24640\<rparr>)
      ([txn_of 0 va] @ [txn_of 0 vb])"
    using d2(2) r1 by simp
  have l2: "length img2 = 90112"
    by (rule d2(3)) (simp add: r1)
  have r2: "read_block img2 k = read_block demo_fresh k" if "17 \<le> k" "k * 4096 + 4096 \<le> 90112" for k
    using d2(4) [of k] r1 that by simp
  have n2: "spec_overlay ([txn_of 0 va] @ [txn_of 0 vb]) 20 = None"
    using d2(5) r1 by simp
  have bmb: "inode_bm vb = 7 # replicate 4095 0" unfolding vb(2) bma by (rule bitmap_evals)
  \<comment> \<open>create c\<close>
  obtain vc where vc: "create_build vb (fresh_header\<lparr>nbytes_used := 24640\<rparr>) [99] t3 = Inr (0, vc)"
    "inode_bm vc = bitmap_set (inode_bm vb) 3"
    "root_dir_block_no vc = root_dir_block_no vb"
    "le32 (root_dir_img vc) 0 = 0" "le32 (root_dir_img vc) 32 = 0"
    "le32 (root_dir_img vc) 64 = 3"
    "take 28 (drop 68 (root_dir_img vc)) = [99] @ replicate (28 - length [99 :: u8]) 0"
    "le32 (root_dir_img vc) 96 = le32 (root_dir_img vb) 96"
    "le32 (root_dir_img vc) 128 = le32 (root_dir_img vb) 128"
    by (rule create_build_slot2 [of vb 3 "fresh_header\<lparr>nbytes_used := 24640\<rparr>" "[99]" t3])
      (simp_all add: wb bmb bitmap_evals vb(5) va(5) vb(6) [of 3, simplified]
        va(6) [of 3, simplified] vb(9,10) f fresh_header_def)
  have wc: "view_wf vc"
    by (rule create_build_wf(1) [OF vc(1) wb]) (simp add: fresh_header_def)
  define img3 where "img3 = jput img2 (nbytes_used (fresh_header\<lparr>nbytes_used := 24640\<rparr>))
         (enc_recs (txn_recs (txn_of 0 vc))) (enc32 JOURNAL_MAGIC @ enc32 36956)"
  have u3: "36956 = nbytes_used (fresh_header\<lparr>nbytes_used := 24640\<rparr>) + 12316" by simp
  have vb_v: "root_dir_block_no vb = 21" "le16 (itbl19 vb) 0 = 2" "le32 (itbl19 vb) 8 = 21"
    "itbl20 vb = itbl20 demo_v0"
    using vb(3,4,7,8) va_v va(7) by simp_all
  note d3 = demo_next [where img = img2 and txns = "[txn_of 0 va]" and v = vb
      and jh = "fresh_header\<lparr>nbytes_used := 24640\<rparr>", OF h2 _ l2 n2 vb_v nmc vc(1) u3 img3_def]
  have c3: "cmd_create img2 [99] t3 = Some (Inr (), img3)"
    by (rule d3(1)) (simp add: r2)
  have h3: "journal_holds img3 (fresh_header\<lparr>nbytes_used := 36956\<rparr>)
      [txn_of 0 va, txn_of 0 vb, txn_of 0 vc]"
    using d3(2) r2 by simp
  have l3: "length img3 = 90112"
    by (rule d3(3)) (simp add: r2)
  \<comment> \<open>install\<close>
  let ?txns = "[txn_of 0 va, txn_of 0 vb, txn_of 0 vc]"
  have vc_rb: "root_dir_block_no vc = 21" using vc(3) vb_v by simp
  have safe: "\<forall>t \<in> set ?txns. \<forall>p \<in> set t. safe_entry p"
    using txn_of_safe [OF wa va_v(1)] txn_of_safe [OF wb vb_v(1)] txn_of_safe [OF wc vc_rb]
    by simp
  define img4 where "img4 = reset_journal (replay ?txns img3)"
  have inst: "cmd_install img3 = Some (Inr 3, img4)"
    unfolding img4_def using holds_install [OF h3 safe] by simp
  have wf4: "\<forall>t \<in> set ?txns. \<forall>p \<in> set t. length (snd p) = 4096"
    using holdsD(7) [OF h3] by (auto simp: entry_wf_def)
  have lr: "90112 \<le> length (replay ?txns img3)"
    using length_replay_ge' [of img3 ?txns] l3 by simp
  have rd: "read_block img4 k = (case spec_overlay ?txns k of Some im \<Rightarrow> Some im
        | None \<Rightarrow> read_block img3 k)" if "17 \<le> k" "k * 4096 + 4096 \<le> 90112" for k
    unfolding img4_def
    using read_block_reset [OF that(1), of "replay ?txns img3"] lr that(2)
      read_block_replay [OF wf4, of k img3] l3
    by simp
  have o17: "spec_overlay ?txns 17 = Some (inode_bm vc)"
    using spec_overlay_last(1) [OF vc_rb, of "[txn_of 0 va, txn_of 0 vb]"] by simp
  have o21: "spec_overlay ?txns 21 = Some (root_dir_img vc)"
    using spec_overlay_last(2) [OF vc_rb, of "[txn_of 0 va, txn_of 0 vb]"] by simp
  have b17: "read_block img4 17 = Some (inode_bm vc)" using rd [of 17] o17 by simp
  have b21: "read_block img4 21 = Some (root_dir_img vc)" using rd [of 21] o21 by simp
  have "inode_bm vc = 15 # replicate 4095 0" unfolding vc(2) bmb by (rule bitmap_evals)
  then have bmc: "inode_bm vc ! 0 = 0x0F" by simp
  have d96: "le32 (root_dir_img vc) 96 = 0" using vc(8) vb(13) va(13) f by simp
  have d128: "le32 (root_dir_img vc) 128 = 0" using vc(9) vb(14) va(14) f by simp
  have nm: "take 28 (drop 68 (root_dir_img vc)) = 99 # replicate 27 0" using vc(7) by simp
  show ?thesis
    using s1(1) c2 c3 inst b17 bmc b21 vc(4) vc(5) vc(6) nm d96 d128 by blast
qed

text \<open>
  Claim C5, as the code has it. For a valid journal header, install returns. Either a
  read past the end of the image file ended the run (the error \<open>Io\<close>, before the lines that
  clear the journal), or the run reports a commit count and leaves the 16 blocks of the
  journal region zero but for the fresh header (magic 0x4A524E4C, nbytes_used 8) at their
  start. When the image file holds all the bytes the header counts, no read fails and the
  run is of the second kind. The exit on 64 pending records, which would also skip the
  clearing, is never taken. The example after the theorem is a short file that install
  leaves with its journal as it was.
\<close>

theorem install_always_clears:
  assumes "journal_read_header img = Some jh" and "\<not> header_invalid jh"
  shows "\<exists>r img'. cmd_install img = Some (r, img')
     \<and> (r = Inl Io
          \<or> (\<exists>n. r = Inr n)
            \<and> take 65536 (drop 4096 img') = enc32 JOURNAL_MAGIC @ enc32 8 @ replicate 65528 0
            \<and> journal_read_header img' = Some fresh_header)
     \<and> (journal_base_off + nbytes_used jh \<le> length img \<longrightarrow> r \<noteq> Inl Io)"
proof -
  obtain r img' where r: "cmd_install img = Some (r, img')"
    using cmd_install_terminates [of img] by fastforce
  have a: "r = Inl Io
          \<or> (\<exists>n. r = Inr n)
            \<and> take 65536 (drop 4096 img') = enc32 JOURNAL_MAGIC @ enc32 8 @ replicate 65528 0
            \<and> journal_read_header img' = Some fresh_header"
  proof (cases r)
    case (Inl e)
    then show ?thesis using install_errors [OF assms] r by blast
  next
    case (Inr n)
    then obtain im where "img' = reset_journal im" using cmd_install_success r by blast
    then show ?thesis using Inr reset_journal_region [of im] reset_journal_header [of im] by blast
  qed
  have b: "r \<noteq> Inl Io" if "journal_base_off + nbytes_used jh \<le> length img"
    using install_clears [OF assms that] r by auto
  show ?thesis using r a b by blast
qed

theorem install_always_clears_witness:
  "journal_read_header demo_torn = Some demo_jh \<and> \<not> header_invalid demo_jh
   \<and> journal_base_off + nbytes_used demo_jh \<le> length demo_torn
   \<and> (\<exists>n img'. cmd_install demo_torn = Some (Inr n, img')
     \<and> take 65536 (drop 4096 img') = enc32 JOURNAL_MAGIC @ enc32 8 @ replicate 65528 0
     \<and> journal_read_header img' = Some fresh_header)"
proof -
  from install_always_clears [OF demo_torn_header demo_jh_valid]
  show ?thesis using demo_torn_header demo_jh_valid demo_torn_long by auto
qed

text \<open>
  A file of 4104 bytes whose header counts 12 bytes in use: the header is valid, the first
  read of the scan fails, and install ends with \<open>Io\<close> and the file, header included, as
  it was.
\<close>

theorem install_short_file_not_cleared:
  "journal_read_header demo_short = Some \<lparr>magic = JOURNAL_MAGIC, nbytes_used = 12\<rparr>
   \<and> \<not> header_invalid \<lparr>magic = JOURNAL_MAGIC, nbytes_used = 12\<rparr>
   \<and> cmd_install demo_short = Some (Inl Io, demo_short)
   \<and> journal_read_header demo_short \<noteq> Some fresh_header"
proof -
  let ?jh = "\<lparr>magic = JOURNAL_MAGIC, nbytes_used = 12\<rparr>"
  have v: "\<not> header_invalid ?jh"
    by (simp add: header_invalid_def journal_capacity_bytes_def)
  have f: "journal_fail_if_missing demo_short = Inr ?jh"
    using demo_short_header v by (simp add: journal_fail_if_missing_def)
  have c: "install_cond 12 (install_init demo_short)"
    by (simp add: install_cond_def install_init_def)
  have i: "install_iter 12 (install_init demo_short) = (install_init demo_short)\<lparr>i_exit := Some Io\<rparr>"
    by (simp add: install_iter_def install_init_def pread_exact_def journal_base_off_def
        demo_short_def)
  have "\<not> install_cond 12 ((install_init demo_short)\<lparr>i_exit := Some Io\<rparr>)"
    by (simp add: install_cond_def)
  from install_stop [OF this] install_go [OF c] i
  have "while_option (install_cond 12) (install_iter 12) (install_init demo_short)
      = Some ((install_init demo_short)\<lparr>i_exit := Some Io\<rparr>)" by simp
  then have "cmd_install demo_short = Some (Inl Io, demo_short)"
    using f by (simp add: cmd_install_def install_init_def)
  then show ?thesis using demo_short_header v by (simp add: fresh_header_def)
qed

text \<open>
  Claim C6. After an install that succeeded, a second install finds the header with
  nbytes_used = 8, applies no commit and leaves the image file exactly as the first
  install left it.
\<close>

theorem install_twice_same:
  assumes "cmd_install img = Some (Inr n, img1)"
  shows "journal_read_header img1 = Some fresh_header \<and> cmd_install img1 = Some (Inr 0, img1)"
proof -
  obtain im where "img1 = reset_journal im" using cmd_install_success [OF assms] by blast
  then show ?thesis using install_twice [OF assms] reset_journal_header [of im] by simp
qed

theorem install_twice_same_witness:
  "cmd_install demo_torn = Some (Inr 2, reset_journal (replay [demo_t1, demo_t2] demo_torn))
   \<and> cmd_install (reset_journal (replay [demo_t1, demo_t2] demo_torn))
       = Some (Inr 0, reset_journal (replay [demo_t1, demo_t2] demo_torn))"
proof -
  have a: "cmd_install demo_torn
      = Some (Inr 2, reset_journal (replay [demo_t1, demo_t2] demo_torn))"
    using demo_torn_scan by simp
  from install_twice_same [OF a] a show ?thesis by simp
qed




lemma install_reach_inv:
  assumes u: "8 \<le> used" "used \<le> 65536"
  shows "\<forall>j<k. install_cond used ((install_iter used ^^ j) (install_init img)) \<Longrightarrow>
     install_inv used ((install_iter used ^^ k) (install_init img))"
proof (induction k)
  case 0
  show ?case using install_init_inv [OF u(1)] by simp
next
  case (Suc k)
  have i: "install_inv used ((install_iter used ^^ k) (install_init img))"
    using Suc by simp
  have c: "install_cond used ((install_iter used ^^ k) (install_init img))"
    using Suc.prems by simp
  show ?case using install_iter_inv [OF u(2) i c] by simp
qed

text \<open>
  Claim C9. With a header that install accepts, every state the scan loop of install
  reaches holds at most 15 pending DATA records (each takes 4104 of the at most 65528
  bytes of records), so the test against 64 never fires: no state of the loop and no run
  of install ends in the failure ``too many records in one txn''.
\<close>

theorem install_never_too_large:
  assumes "journal_fail_if_missing img = Inr jh"
    and "\<forall>j<k. install_cond (nbytes_used jh)
            ((install_iter (nbytes_used jh) ^^ j) (install_init img))"
  shows "length (i_pending ((install_iter (nbytes_used jh) ^^ k) (install_init img))) \<le> 15
     \<and> i_exit ((install_iter (nbytes_used jh) ^^ k) (install_init img)) \<noteq> Some TxnTooLarge
     \<and> (\<forall>img'. cmd_install img \<noteq> Some (Inl TxnTooLarge, img'))"
proof -
  note b = valid_header_bounds [OF assms(1)]
  have "install_inv (nbytes_used jh) ((install_iter (nbytes_used jh) ^^ k) (install_init img))"
    using install_reach_inv [of "nbytes_used jh" k img] b assms(2) by blast
  then show ?thesis using b cmd_install_not_too_large [of img]
    by (auto simp: install_inv_def)
qed

theorem install_never_too_large_witness:
  "journal_fail_if_missing demo_torn = Inr demo_jh
   \<and> install_cond (nbytes_used demo_jh) (install_init demo_torn)
   \<and> length (i_pending (install_iter (nbytes_used demo_jh) (install_init demo_torn))) \<le> 15
   \<and> i_exit (install_iter (nbytes_used demo_jh) (install_init demo_torn)) \<noteq> Some TxnTooLarge"
proof -
  have f: "journal_fail_if_missing demo_torn = Inr demo_jh"
    using demo_torn_header demo_jh_valid by (simp add: journal_fail_if_missing_def)
  have c: "install_cond (nbytes_used demo_jh) (install_init demo_torn)"
    by (simp add: install_cond_def install_init_def demo_jh_def)
  then have "\<forall>j<1. install_cond (nbytes_used demo_jh)
            ((install_iter (nbytes_used demo_jh) ^^ j) (install_init demo_torn))" by simp
  from install_never_too_large [OF f this] f c show ?thesis by simp
qed

end
